theory Spec2Isabelle
  imports Complex_Main
begin

section \<open>Audio tempo and key analysis\<close>

text \<open>
  The server-side analysis engine is \<open>server/src/lib/audioAnalysis.ts\<close>, the beat-tracking
  variant is \<open>client/src/workers/audioAnalysis.worker.ts\<close>.

  JavaScript numbers are modelled as mathematical reals: there is no NaN, no infinity and no
  rounding error. A \<open>Float32Array\<close> of samples is a \<open>real list\<close>. A value of type
  \<open>number | null\<close> is a \<open>real option\<close> with \<open>None\<close> for \<open>null\<close>. A function whose
  source reaches a \<open>while\<close> loop that may run forever returns an additional outer
  \<open>option\<close>, where \<open>None\<close> means that the call does not return.
\<close>

subsection \<open>Constants\<close>

definition SAMPLE_RATE :: real where "SAMPLE_RATE = 22050"
definition BPM_MIN :: real where "BPM_MIN = 60"
definition BPM_MAX :: real where "BPM_MAX = 200"
definition BPM_WINDOW_SECONDS :: real where "BPM_WINDOW_SECONDS = 30"
definition BPM_HOP_SECONDS :: real where "BPM_HOP_SECONDS = 15"
definition BPM_MERGE_TOLERANCE :: real where "BPM_MERGE_TOLERANCE = 2"

definition KEY_FRAME_SIZE :: nat where "KEY_FRAME_SIZE = 4096"
definition KEY_HOP_SIZE :: nat where "KEY_HOP_SIZE = 2048"
definition KEY_MIN_FREQ :: real where "KEY_MIN_FREQ = 60"
definition KEY_MAX_FREQ :: real where "KEY_MAX_FREQ = 5000"
definition KEY_MAX_SECONDS :: real where "KEY_MAX_SECONDS = 120"

definition KEY_NAMES :: "string list" where
  "KEY_NAMES = [''C'', ''C#'', ''D'', ''D#'', ''E'', ''F'', ''F#'', ''G'', ''G#'', ''A'', ''A#'', ''B'']"

definition MAJOR_TEMPLATE :: "real list" where
  "MAJOR_TEMPLATE = [6.35, 2.23, 3.48, 2.33, 4.38, 4.09, 2.52, 5.19, 2.39, 3.66, 2.29, 2.88]"

definition MINOR_TEMPLATE :: "real list" where
  "MINOR_TEMPLATE = [6.33, 2.68, 3.52, 5.38, 2.6, 3.53, 2.54, 4.75, 3.98, 2.69, 3.34, 3.17]"

subsection \<open>Data model (types.ts)\<close>

text \<open>
  The field \<open>end\<close> of a tempo segment is written \<open>end'\<close>, and the field \<open>bpm\<close> of a song
  analysis is written \<open>overallBpm\<close>: \<open>end\<close> is a keyword, and \<open>bpm\<close> is already the field of
  a tempo segment.
\<close>

record TempoSegment =
  start :: real
  end' :: real
  bpm :: real

datatype Mode = major | minor

record KeyEstimate =
  tonic :: string
  mode :: Mode
  confidence :: real

record SongAnalysis =
  overallBpm :: "real option"
  bpmSegments :: "TempoSegment list"
  key :: "KeyEstimate option"

record AnalysisCache =
  audioMtimeMs :: real
  audioSize :: real
  analysis :: SongAnalysis
  createdAt :: string

subsection \<open>Small numeric helpers\<close>

text \<open>\<open>Math.round\<close> rounds half up: it is \<open>floor (x + 1/2)\<close>.\<close>

definition Math_round :: "real \<Rightarrow> int" where
  "Math_round x = \<lfloor>x + 1 / 2\<rfloor>"

definition roundTo :: "real \<Rightarrow> nat \<Rightarrow> real" where
  "roundTo v decimals = (let factor = 10 ^ decimals in of_int (Math_round (v * factor)) / factor)"

text \<open>The remainder operator \<open>%\<close> of JavaScript takes the sign of the dividend.\<close>

definition js_rem :: "int \<Rightarrow> int \<Rightarrow> int" where
  "js_rem a b = sgn a * (\<bar>a\<bar> mod \<bar>b\<bar>)"

definition modulo :: "int \<Rightarrow> int \<Rightarrow> int" where
  "modulo v m = js_rem (js_rem v m + m) m"

definition median :: "real list \<Rightarrow> real option" where
  "median vals =
     (if length vals = 0 then None
      else let sorted = sort vals; mid = length sorted div 2
           in if length sorted mod 2 = 0
              then Some ((sorted ! (mid - 1) + sorted ! mid) / 2)
              else Some (sorted ! mid))"

definition dot :: "real list \<Rightarrow> real list \<Rightarrow> real" where
  "dot a b = foldl (\<lambda>s i. s + a ! i * b ! i) 0 [0..<length a]"

definition normalizeVector :: "real list \<Rightarrow> real list option" where
  "normalizeVector vals =
     (let sumSquares = foldl (\<lambda>s v. s + v * v) 0 vals
      in if sumSquares = 0 then None
         else let scale = 1 / sqrt sumSquares in Some (map (\<lambda>v. v * scale) vals))"

subsection \<open>Octave folding\<close>

text \<open>
  The two \<open>while\<close> loops of \<open>normalizeTempo\<close>. Neither has a bound in the source, so each
  is a partial function: \<open>None\<close> is a loop that never ends.
\<close>

partial_function (option) doubleWhileBelow :: "real \<Rightarrow> real option" where
  "doubleWhileBelow v = (if v < BPM_MIN then doubleWhileBelow (v * 2) else Some v)"

partial_function (option) halveWhileAbove :: "real \<Rightarrow> real option" where
  "halveWhileAbove v = (if v > BPM_MAX then halveWhileAbove (v / 2) else Some v)"

definition normalizeTempo :: "real \<Rightarrow> real option" where
  "normalizeTempo b = Option.bind (doubleWhileBelow b) halveWhileAbove"

subsection \<open>Tempo of one window: onset strength and autocorrelation\<close>

definition frameSize :: nat where "frameSize = 1024"
definition hopSize :: nat where "hopSize = 512"

text \<open>The inner loop of lines 252-256: the energy of the frame that begins at \<open>offset\<close>.\<close>

definition frameEnergy :: "real list \<Rightarrow> nat \<Rightarrow> real" where
  "frameEnergy samples offset =
     foldl (\<lambda>s i. s + samples ! (offset + i) * samples ! (offset + i)) 0 [0..<frameSize]"

text \<open>Lines 249-259: the energies of the frames, one every \<open>hopSize\<close> samples.\<close>

definition frameEnergies :: "real list \<Rightarrow> nat \<Rightarrow> real list" where
  "frameEnergies samples frameCount =
     map (\<lambda>frame. frameEnergy samples (frame * hopSize)) [0..<frameCount]"

text \<open>Lines 263-268: the positive first difference of the energies.\<close>

definition onsetDiffs :: "real list \<Rightarrow> real list" where
  "onsetDiffs energies =
     map (\<lambda>i. let diff = energies ! i - energies ! (i - 1)
              in if diff > 0 then diff else 0) [1..<length energies]"

text \<open>
  Lines 261-272: the onset signal is the positive first difference with its mean subtracted
  and negative values clamped to zero.
\<close>

definition onsetStrength :: "real list \<Rightarrow> real list" where
  "onsetStrength energies =
     (let raw = onsetDiffs energies;
          mean = (if length raw > 0 then foldl (+) 0 raw / real (length raw) else 0)
      in map (\<lambda>v. max 0 (v - mean)) raw)"

text \<open>Lines 279-282: the correlation sum of the onset signal with itself at one lag.\<close>

definition autocorrelation :: "real list \<Rightarrow> nat \<Rightarrow> real" where
  "autocorrelation onset lag =
     foldl (\<lambda>s i. s + onset ! i * onset ! (i - lag)) 0 [lag..<length onset]"

text \<open>Lines 283-286: one step of the search for the best lag; the state is (bestLag, bestValue).\<close>

definition lagStep :: "real list \<Rightarrow> nat \<times> real \<Rightarrow> nat \<Rightarrow> nat \<times> real" where
  "lagStep onset best lag =
     (let s = autocorrelation onset lag in if s > snd best then (lag, s) else best)"

text \<open>Lines 274-287: the bounds of the lag and the search between them.\<close>

definition minLag :: "real \<Rightarrow> int" where
  "minLag sampleRate = max 1 \<lfloor>(60 / BPM_MAX) * sampleRate / real hopSize\<rfloor>"

definition maxLag :: "real \<Rightarrow> int" where
  "maxLag sampleRate = \<lfloor>(60 / BPM_MIN) * sampleRate / real hopSize\<rfloor>"

definition searchLag :: "real list \<Rightarrow> real \<Rightarrow> nat" where
  "searchLag onset sampleRate =
     fst (foldl (lagStep onset) (0, 0) [nat (minLag sampleRate)..<nat (maxLag sampleRate + 1)])"

definition estimateTempo :: "real list \<Rightarrow> real \<Rightarrow> real option option" where
  "estimateTempo samples sampleRate =
     (if length samples < frameSize * 2 then Some None
      else let frameCount = (length samples - frameSize) div hopSize + 1 in
        if frameCount \<le> 2 then Some None
        else let onset = onsetStrength (frameEnergies samples frameCount);
                 bestLag = searchLag onset sampleRate
             in if bestLag = 0 then Some None
                else map_option Some
                       (normalizeTempo (60 * sampleRate / (real bestLag * real hopSize))))"

subsection \<open>Tempo segments\<close>

text \<open>
  One step of the loop of \<open>mergeTempoSegments\<close>. The division is by the summed duration of
  the two segments; it is positive for the segments that \<open>buildTempoSegments\<close> passes in.
\<close>

definition mergeStep :: "TempoSegment list \<Rightarrow> TempoSegment \<Rightarrow> TempoSegment list" where
  "mergeStep merged segment =
     (if merged = [] then [segment]
      else let l = last merged in
        if \<bar>bpm segment - bpm l\<bar> \<le> BPM_MERGE_TOLERANCE
        then let lastDuration = end' l - start l;
                 nextDuration = end' segment - start segment;
                 total = lastDuration + nextDuration;
                 weighted = (bpm l * lastDuration + bpm segment * nextDuration) / total
             in butlast merged @ [l\<lparr>bpm := weighted, end' := max (end' l) (end' segment)\<rparr>]
        else merged @ [segment])"

definition mergeTempoSegments :: "TempoSegment list \<Rightarrow> TempoSegment list" where
  "mergeTempoSegments segments =
     (if length segments = 0 then [] else foldl mergeStep [] segments)"

text \<open>
  The \<open>for\<close> loop of \<open>buildTempoSegments\<close> (lines 186-198); \<open>st\<close> is the loop variable
  \<open>start\<close>. The loop is entered only with a positive hop, which the guard repeats.
\<close>

function windowLoop ::
  "real list \<Rightarrow> real \<Rightarrow> nat \<Rightarrow> nat \<Rightarrow> nat \<Rightarrow> TempoSegment list \<Rightarrow> TempoSegment list option"
where
  "windowLoop samples sampleRate windowSamples hopSamples st segments =
     (if 0 < hopSamples \<and> st + windowSamples \<le> length samples then
        (let en = st + windowSamples;
             slice = take (en - st) (drop st samples)
         in case estimateTempo slice sampleRate of
              None \<Rightarrow> None
            | Some None \<Rightarrow>
                windowLoop samples sampleRate windowSamples hopSamples (st + hopSamples) segments
            | Some (Some b) \<Rightarrow>
                if b = 0
                then windowLoop samples sampleRate windowSamples hopSamples (st + hopSamples) segments
                else windowLoop samples sampleRate windowSamples hopSamples (st + hopSamples)
                       (segments @ [\<lparr>start = real st / sampleRate, end' = real en / sampleRate, bpm = b\<rparr>]))
      else Some segments)"
  by pat_completeness auto
termination
  by (relation "measure (\<lambda>(samples, sampleRate, windowSamples, hopSamples, st, segments).
        Suc (length samples) - (st + windowSamples))") auto

declare windowLoop.simps [simp del]

definition buildTempoSegments :: "real list \<Rightarrow> real \<Rightarrow> TempoSegment list option" where
  "buildTempoSegments samples sampleRate =
     (let windowSamples = \<lfloor>sampleRate * BPM_WINDOW_SECONDS\<rfloor>;
          hopSamples = \<lfloor>sampleRate * BPM_HOP_SECONDS\<rfloor>
      in if windowSamples \<le> 0 \<or> hopSamples \<le> 0 \<or> int (length samples) < windowSamples
         then Some []
         else map_option mergeTempoSegments
                (windowLoop samples sampleRate (nat windowSamples) (nat hopSamples) 0 []))"

text \<open>Every real is finite, so the filter \<open>Number.isFinite\<close> keeps every value.\<close>

definition pickOverallBpm :: "TempoSegment list \<Rightarrow> real option option" where
  "pickOverallBpm segments =
     (if length segments = 0 then Some None
      else case median (map bpm segments) of
             None \<Rightarrow> Some None
           | Some medianValue \<Rightarrow>
               if medianValue = 0 then Some None
               else map_option Some (normalizeTempo medianValue))"

subsection \<open>Key estimation\<close>

definition buildHannWindow :: "nat \<Rightarrow> real list" where
  "buildHannWindow sz =
     (let denom = real sz - 1
      in map (\<lambda>i. 0.5 - 0.5 * cos ((2 * pi * real i) / denom)) [0..<sz])"

definition HANN_WINDOW :: "real list" where
  "HANN_WINDOW = buildHannWindow KEY_FRAME_SIZE"

definition buildTemplates :: "real list \<Rightarrow> real list list" where
  "buildTemplates template =
     (case normalizeVector template of
        None \<Rightarrow> []
      | Some normalized \<Rightarrow>
          map (\<lambda>shift. map (\<lambda>i. normalized ! ((i + shift) mod 12)) [0..<12]) [0..<12])"

definition MAJOR_TEMPLATES :: "real list list" where
  "MAJOR_TEMPLATES = buildTemplates MAJOR_TEMPLATE"

definition MINOR_TEMPLATES :: "real list list" where
  "MINOR_TEMPLATES = buildTemplates MINOR_TEMPLATE"

text \<open>
  The Fourier transform comes from the package \<open>fft.js\<close>, which is not part of the
  repository. \<open>realTransform\<close> followed by \<open>completeSpectrum\<close> fills an array with the
  real and imaginary parts of the discrete Fourier transform of the frame, interleaved; the
  two functions below are that transform, written as its defining sum.
\<close>

definition dftBin :: "real list \<Rightarrow> nat \<Rightarrow> real \<times> real" where
  "dftBin frame k =
     (let n = length frame
      in (foldl (\<lambda>s t. s + frame ! t * cos (2 * pi * real k * real t / real n)) 0 [0..<n],
          foldl (\<lambda>s t. s - frame ! t * sin (2 * pi * real k * real t / real n)) 0 [0..<n]))"

definition realTransform :: "real list \<Rightarrow> real list" where
  "realTransform frame =
     concat (map (\<lambda>k. [fst (dftBin frame k), snd (dftBin frame k)]) [0..<length frame])"

text \<open>Lines 325-334: one spectral bin is added to the chroma histogram.\<close>

definition binStep :: "real \<Rightarrow> real list \<Rightarrow> real list \<Rightarrow> nat \<Rightarrow> real list" where
  "binStep sampleRate spectrum chroma bin =
     (let re = spectrum ! (bin * 2);
          im = spectrum ! (bin * 2 + 1);
          magnitude = re * re + im * im;
          freq = (real bin * sampleRate) / real KEY_FRAME_SIZE
      in if freq < KEY_MIN_FREQ \<or> freq > KEY_MAX_FREQ then chroma
         else let midi = 69 + 12 * log 2 (freq / 440);
                  pc = nat (modulo (Math_round midi) 12)
              in chroma[pc := chroma ! pc + magnitude])"

text \<open>The loop over the frames (lines 318-336); \<open>st\<close> is the loop variable \<open>start\<close>.\<close>

function keyFrameLoop :: "real list \<Rightarrow> real \<Rightarrow> nat \<Rightarrow> nat \<Rightarrow> real list \<Rightarrow> real list" where
  "keyFrameLoop samples sampleRate maxSamples st chroma =
     (if st + KEY_FRAME_SIZE \<le> maxSamples then
        (let frame = map (\<lambda>i. samples ! (st + i) * HANN_WINDOW ! i) [0..<KEY_FRAME_SIZE];
             spectrum = realTransform frame;
             chroma' = foldl (binStep sampleRate spectrum) chroma [1..<KEY_FRAME_SIZE div 2]
         in keyFrameLoop samples sampleRate maxSamples (st + KEY_HOP_SIZE) chroma')
      else chroma)"
  by pat_completeness auto
termination
  by (relation "measure (\<lambda>(samples, sampleRate, maxSamples, st, chroma). Suc maxSamples - st)")
     (auto simp: KEY_HOP_SIZE_def KEY_FRAME_SIZE_def)

declare keyFrameLoop.simps [simp del]

text \<open>
  The search for the best and the second best template score (lines 343-370). The scores
  start at \<open>-Infinity\<close>, which is \<open>None\<close> here: every real is greater than it.
\<close>

record scoreState =
  bestScore :: "real option"
  secondScore :: "real option"
  bestIndex :: nat
  bestMode :: Mode

definition aboveScore :: "real \<Rightarrow> real option \<Rightarrow> bool" where
  "aboveScore s bound = (case bound of None \<Rightarrow> True | Some b \<Rightarrow> s > b)"

definition scoreStep ::
  "real list \<Rightarrow> real list list \<Rightarrow> Mode \<Rightarrow> scoreState \<Rightarrow> nat \<Rightarrow> scoreState" where
  "scoreStep chromaVector templates m st i =
     (let score = dot chromaVector (templates ! i)
      in if aboveScore score (bestScore st)
         then st\<lparr>secondScore := bestScore st, bestScore := Some score,
                 bestIndex := i, bestMode := m\<rparr>
         else if aboveScore score (secondScore st)
         then st\<lparr>secondScore := Some score\<rparr>
         else st)"

definition scoreTemplates :: "real list \<Rightarrow> scoreState" where
  "scoreTemplates chromaVector =
     (let init = \<lparr>bestScore = None, secondScore = None, bestIndex = 0, bestMode = major\<rparr>;
          afterMajor = foldl (scoreStep chromaVector MAJOR_TEMPLATES major) init [0..<12]
      in foldl (scoreStep chromaVector MINOR_TEMPLATES minor) afterMajor [0..<12])"

text \<open>Lines 372-381: the confidence and the returned estimate.\<close>

definition keyFromScores :: "scoreState \<Rightarrow> KeyEstimate" where
  "keyFromScores st =
     (let conf = (case (bestScore st, secondScore st) of
                    (Some b, Some s) \<Rightarrow> if b > 0 then max 0 (min 1 ((b - s) / b)) else 0
                  | _ \<Rightarrow> 0)
      in \<lparr>tonic = KEY_NAMES ! bestIndex st, mode = bestMode st, confidence = roundTo conf 3\<rparr>)"

text \<open>
  Lines 308-341 of \<open>estimateKey\<close>: the normalised chroma vector of the buffer;
  \<open>None\<close> is the return of null.
\<close>

definition chromaVectorOf :: "real list \<Rightarrow> real \<Rightarrow> real list option" where
  "chromaVectorOf samples sampleRate =
     (let maxSamples = min (int (length samples)) \<lfloor>KEY_MAX_SECONDS * sampleRate\<rfloor>
      in if maxSamples < int KEY_FRAME_SIZE then None
         else normalizeVector
                (keyFrameLoop samples sampleRate (nat maxSamples) 0 (replicate 12 0)))"

definition estimateKey :: "real list \<Rightarrow> real \<Rightarrow> KeyEstimate option" where
  "estimateKey samples sampleRate =
     (case chromaVectorOf samples sampleRate of
        None \<Rightarrow> None
      | Some chromaVector \<Rightarrow> Some (keyFromScores (scoreTemplates chromaVector)))"

text \<open>
  The confidence as the specification states it, to be compared with the one the code
  computes: the scores of the 24 templates, the runner-up (the highest score that is left
  when one occurrence of the best is taken away), and the clamped and rounded margin.
\<close>

definition templateScores :: "real list \<Rightarrow> real list" where
  "templateScores chromaVector =
     map (\<lambda>i. dot chromaVector (MAJOR_TEMPLATES ! i)) [0..<12] @
     map (\<lambda>i. dot chromaVector (MINOR_TEMPLATES ! i)) [0..<12]"

definition runnerUp :: "real list \<Rightarrow> real" where
  "runnerUp scores = Max (set (remove1 (Max (set scores)) scores))"

definition spec_confidence :: "real list \<Rightarrow> real" where
  "spec_confidence scores =
     (let best = Max (set scores)
      in roundTo (if best > 0 then max 0 (min 1 ((best - runnerUp scores) / best)) else 0) 3)"

text \<open>An example buffer for the key estimator: one frame, silent but for a single click.\<close>

definition clickFrame :: "real list" where
  "clickFrame = (replicate 4096 0)[1365 := 1]"

subsection \<open>The cache file and the orchestrator\<close>

text \<open>
  A parsed JSON document. An object is the list of its properties; a parsed object has no
  duplicate property names.
\<close>

datatype json =
    JNull
  | JBool bool
  | JNumber real
  | JString string
  | JArray "json list"
  | JObject "(string \<times> json) list"

text \<open>
  The text of a file is represented by what \<open>JSON.parse\<close> makes of it: \<open>Unparsable\<close> when
  it throws, \<open>Document v\<close> when it returns \<open>v\<close>. The text itself, and with it the work of
  \<open>JSON.stringify\<close> and \<open>JSON.parse\<close> (the printing and reading of numbers, the escaping of
  strings), is not modelled: a file written by \<open>writeCache\<close> is represented directly by the
  value that was serialised.
\<close>

datatype content = Unparsable | Document json

text \<open>
  What the orchestrator sees of the outside: \<open>fs.stat\<close> (\<open>None\<close> when it throws), the files
  that can be read, the paths that can be written, the external decoder (\<open>None\<close> when
  \<open>decodeAudioSamples\<close> resolves to null) and the clock.
\<close>

text \<open>The field \<open>size\<close> of the stat is written \<open>size'\<close>.\<close>

record fileStat =
  mtimeMs :: real
  size' :: real

record world =
  stats :: "string \<Rightarrow> fileStat option"
  files :: "string \<Rightarrow> content option"
  writable :: "string \<Rightarrow> bool"
  decodeAudioSamples :: "string \<Rightarrow> real list option"
  now :: string

text \<open>Reading a property of a parsed value: \<open>Inl ()\<close> is the TypeError on null,
  \<open>Inr None\<close> is undefined.\<close>

definition getProp :: "json \<Rightarrow> string \<Rightarrow> unit + json option" where
  "getProp v name =
     (case v of
        JNull \<Rightarrow> Inl ()
      | JObject props \<Rightarrow> Inr (map_of props name)
      | _ \<Rightarrow> Inr None)"

definition truthy :: "json \<Rightarrow> bool" where
  "truthy v =
     (case v of
        JNull \<Rightarrow> False
      | JBool b \<Rightarrow> b
      | JNumber n \<Rightarrow> n \<noteq> 0
      | JString s \<Rightarrow> s \<noteq> []
      | _ \<Rightarrow> True)"

definition getCachePath :: "string \<Rightarrow> string \<Rightarrow> string" where
  "getCachePath cacheDir songId = cacheDir @ ''/analysis/'' @ songId @ ''.json''"

definition readCache :: "world \<Rightarrow> string \<Rightarrow> fileStat \<Rightarrow> json option" where
  "readCache w cachePath stat =
     (case files w cachePath of
        None \<Rightarrow> None
      | Some Unparsable \<Rightarrow> None
      | Some (Document cached) \<Rightarrow>
          (case (getProp cached ''audioMtimeMs'', getProp cached ''audioSize'',
                 getProp cached ''analysis'') of
             (Inr (Some (JNumber m)), Inr (Some (JNumber s)), Inr (Some a)) \<Rightarrow>
               if m = mtimeMs stat \<and> s = size' stat \<and> truthy a then Some a else None
           | _ \<Rightarrow> None))"

text \<open>The JSON values that \<open>JSON.stringify\<close> writes for the records of the data model.\<close>

definition numberOrNull :: "real option \<Rightarrow> json" where
  "numberOrNull v = (case v of None \<Rightarrow> JNull | Some x \<Rightarrow> JNumber x)"

definition segmentJson :: "TempoSegment \<Rightarrow> json" where
  "segmentJson s =
     JObject [(''start'', JNumber (start s)), (''end'', JNumber (end' s)), (''bpm'', JNumber (bpm s))]"

definition modeJson :: "Mode \<Rightarrow> json" where
  "modeJson m = (case m of major \<Rightarrow> JString ''major'' | minor \<Rightarrow> JString ''minor'')"

definition keyJson :: "KeyEstimate option \<Rightarrow> json" where
  "keyJson k =
     (case k of
        None \<Rightarrow> JNull
      | Some e \<Rightarrow> JObject [(''tonic'', JString (tonic e)), (''mode'', modeJson (mode e)),
                           (''confidence'', JNumber (confidence e))])"

definition analysisJson :: "SongAnalysis \<Rightarrow> json" where
  "analysisJson a =
     JObject [(''bpm'', numberOrNull (overallBpm a)),
              (''bpmSegments'', JArray (map segmentJson (bpmSegments a))),
              (''key'', keyJson (key a))]"

definition cacheJson :: "AnalysisCache \<Rightarrow> json" where
  "cacheJson c =
     JObject [(''audioMtimeMs'', JNumber (audioMtimeMs c)), (''audioSize'', JNumber (audioSize c)),
              (''analysis'', analysisJson (analysis c)), (''createdAt'', JString (createdAt c))]"

text \<open>\<open>writeCache\<close>: \<open>None\<close> is the rejection of \<open>fs.mkdir\<close> or \<open>fs.writeFile\<close>.\<close>

definition writeCache :: "world \<Rightarrow> string \<Rightarrow> fileStat \<Rightarrow> SongAnalysis \<Rightarrow> world option" where
  "writeCache w cachePath stat a =
     (let payload = \<lparr>audioMtimeMs = mtimeMs stat, audioSize = size' stat, analysis = a,
                     createdAt = now w\<rparr>
      in if writable w cachePath
         then Some (w\<lparr>files := (files w)(cachePath \<mapsto> Document (cacheJson payload))\<rparr>)
         else None)"

text \<open>
  Lines 81-93 of \<open>getSongAnalysis\<close>: the analysis assembled from a decoded buffer.
  The outer \<open>None\<close> is a call that does not return.
\<close>

definition assembleAnalysis :: "real list \<Rightarrow> SongAnalysis option" where
  "assembleAnalysis decoded =
     (case buildTempoSegments decoded SAMPLE_RATE of
        None \<Rightarrow> None
      | Some tempoSegments \<Rightarrow>
          (case (case pickOverallBpm tempoSegments of
                   None \<Rightarrow> None
                 | Some None \<Rightarrow> estimateTempo decoded SAMPLE_RATE
                 | Some (Some b) \<Rightarrow> Some (Some b)) of
             None \<Rightarrow> None
           | Some b \<Rightarrow>
               Some \<lparr>overallBpm = (case b of None \<Rightarrow> None
                                   | Some v \<Rightarrow> if v = 0 then None else Some (roundTo v 1)),
                     bpmSegments = map (\<lambda>segment. \<lparr>start = roundTo (start segment) 1,
                                                     end' = roundTo (end' segment) 1,
                                                     bpm = roundTo (bpm segment) 1\<rparr>) tempoSegments,
                     key = estimateKey decoded SAMPLE_RATE\<rparr>))"

text \<open>
  The result of a call: the promise resolves to a value (null is \<open>None\<close>) or rejects; with
  it comes the state of the files afterwards.
\<close>

datatype outcome = Resolved "json option" world | Rejected world

text \<open>The outer \<open>None\<close> is a call that does not return.\<close>

definition getSongAnalysis :: "world \<Rightarrow> string \<Rightarrow> string \<Rightarrow> string \<Rightarrow> bool \<Rightarrow> outcome option" where
  "getSongAnalysis w audioPath cacheDir songId force =
     (case stats w audioPath of
        None \<Rightarrow> Some (Resolved None w)
      | Some stat \<Rightarrow>
          let cachePath = getCachePath cacheDir songId;
              cached = (if \<not> force then readCache w cachePath stat else None)
          in case cached of
               Some c \<Rightarrow> Some (Resolved (Some c) w)
             | None \<Rightarrow>
                 (case decodeAudioSamples w audioPath of
                    None \<Rightarrow> Some (Resolved None w)
                  | Some decoded \<Rightarrow>
                      if length decoded = 0 then Some (Resolved None w)
                      else (case assembleAnalysis decoded of
                              None \<Rightarrow> None
                            | Some a \<Rightarrow>
                                (case writeCache w cachePath stat a of
                                   None \<Rightarrow> Some (Rejected w)
                                 | Some w' \<Rightarrow> Some (Resolved (Some (analysisJson a)) w')))))"

text \<open>
  The cast \<open>as AnalysisCache\<close> of \<open>readCache\<close> does no work at run time: the three
  properties are read from whatever value was parsed. \<open>field\<close> is such a read with the
  TypeError and undefined both as \<open>None\<close>.
\<close>

definition field :: "json \<Rightarrow> string \<Rightarrow> json option" where
  "field v name = (case getProp v name of Inr (Some x) \<Rightarrow> Some x | _ \<Rightarrow> None)"

text \<open>Example states of the outside world, used to instantiate the theorems below.\<close>

definition exampleAnalysis :: SongAnalysis where
  "exampleAnalysis =
     \<lparr>overallBpm = Some 120,
      bpmSegments = [\<lparr>start = 0, end' = 30, bpm = 119.4\<rparr>, \<lparr>start = 15, end' = 45, bpm = 123\<rparr>],
      key = Some \<lparr>tonic = ''C'', mode = major, confidence = 0.25\<rparr>\<rparr>"

definition exampleEntry :: AnalysisCache where
  "exampleEntry =
     \<lparr>audioMtimeMs = 1700000000000, audioSize = 4096, analysis = exampleAnalysis,
      createdAt = ''2024-01-01T00:00:00.000Z''\<rparr>"

text \<open>
  A world with two audio files that the decoder cannot decode, a cache entry for the song
  \<open>s1\<close> that was written for \<open>song.mp3\<close>, a cache file for \<open>s2\<close> that is not JSON, and
  a cache file for \<open>s6\<close> that carries the stat of \<open>song.mp3\<close> and the string \<open>x\<close> in the
  place of the analysis.
\<close>

definition exampleWorld :: world where
  "exampleWorld =
     \<lparr>stats = (\<lambda>p. if p = ''song.mp3'' then Some \<lparr>mtimeMs = 1700000000000, size' = 4096\<rparr>
                    else if p = ''changed.mp3'' then Some \<lparr>mtimeMs = 1700000000001, size' = 4096\<rparr>
                    else None),
      files = (\<lambda>p. if p = ''cache/analysis/s1.json'' then Some (Document (cacheJson exampleEntry))
                    else if p = ''cache/analysis/s2.json'' then Some Unparsable
                    else if p = ''cache/analysis/s6.json''
                      then Some (Document (JObject [(''audioMtimeMs'', JNumber 1700000000000),
                                                    (''audioSize'', JNumber 4096),
                                                    (''analysis'', JString ''x'')]))
                    else None),
      writable = (\<lambda>p. True),
      decodeAudioSamples = (\<lambda>p. None),
      now = ''2024-01-02T00:00:00.000Z''\<rparr>"

text \<open>The example world with a decoder that yields eight samples of silence.\<close>

definition silentWorld :: world where
  "silentWorld = exampleWorld\<lparr>decodeAudioSamples := (\<lambda>p. Some (replicate 8 0))\<rparr>"

subsection \<open>The beat-tracking strategy (audioAnalysis.worker.ts)\<close>

text \<open>The worker has bounds of its own; they carry the prefix \<open>worker\<close> here.\<close>

definition worker_BPM_MIN :: real where "worker_BPM_MIN = 40"
definition worker_BPM_MAX :: real where "worker_BPM_MAX = 208"
definition MOVING_AVG_WINDOW :: nat where "MOVING_AVG_WINDOW = 4"
definition GLITCH_RATIO :: real where "GLITCH_RATIO = 0.3"
definition SEGMENT_TOLERANCE :: real where "SEGMENT_TOLERANCE = 2"

definition average :: "real list \<Rightarrow> real option" where
  "average vals =
     (if length vals = 0 then None
      else Some (foldl (\<lambda>s v. s + v) 0 vals / real (length vals)))"

text \<open>The state of the first loop of \<open>buildTempoMap\<close>.\<close>

record tempoMapState =
  intervals :: "TempoSegment list"
  history :: "real list"
  lastStable :: "real option"

text \<open>\<open>slice(-n)\<close>: the last \<open>n\<close> elements.\<close>

definition sliceLast :: "nat \<Rightarrow> 'a list \<Rightarrow> 'a list" where
  "sliceLast n xs = drop (length xs - n) xs"

definition beatStep :: "real list \<Rightarrow> tempoMapState \<Rightarrow> nat \<Rightarrow> tempoMapState" where
  "beatStep beats st i =
     (let s = beats ! (i - 1);
          e = beats ! i;
          interval = e - s
      in if interval \<le> 0 then st
         else let rawBpm = 60 / interval in
           if rawBpm < worker_BPM_MIN \<or> rawBpm > worker_BPM_MAX then st
           else let nextHistory = sliceLast MOVING_AVG_WINDOW (history st @ [rawBpm]) in
             case average nextHistory of
               None \<Rightarrow> st
             | Some smoothed \<Rightarrow>
                 if smoothed = 0 then st
                 else if (case lastStable st of
                            None \<Rightarrow> False
                          | Some prev \<Rightarrow> prev \<noteq> 0 \<and> \<bar>smoothed - prev\<bar> / prev > GLITCH_RATIO)
                 then st
                 else \<lparr>intervals = intervals st @ [\<lparr>start = s, end' = e, bpm = smoothed\<rparr>],
                       history = nextHistory,
                       lastStable = Some smoothed\<rparr>)"

definition beatIntervals :: "real list \<Rightarrow> TempoSegment list" where
  "beatIntervals beats =
     intervals (foldl (beatStep beats) \<lparr>intervals = [], history = [], lastStable = None\<rparr>
                  [1..<length beats])"

text \<open>
  One step of the merging loop of \<open>buildTempoMap\<close> (lines 108-123). Numbers are reals:
  the products, the sum and the quotient are exact here, where the code rounds each of them
  to binary64, so the two agree on a value only up to that rounding. A total of zero makes
  the quotient NaN or an infinity in the code, which no real represents: the step is then
  \<open>None\<close>.
\<close>

definition tempoMapMergeStep :: "TempoSegment list \<Rightarrow> TempoSegment \<Rightarrow> TempoSegment list option" where
  "tempoMapMergeStep merged interval =
     (if merged = [] then Some [interval]
      else let l = last merged in
        if \<bar>bpm interval - bpm l\<bar> \<le> SEGMENT_TOLERANCE
        then let lastDuration = end' l - start l;
                 nextDuration = end' interval - start interval;
                 total = lastDuration + nextDuration
             in if total = 0 then None
                else Some (butlast merged @
                             [l\<lparr>bpm := (bpm l * lastDuration + bpm interval * nextDuration) / total,
                                end' := end' interval\<rparr>])
        else Some (merged @ [interval]))"

definition extendLast :: "real \<Rightarrow> TempoSegment list \<Rightarrow> TempoSegment list" where
  "extendLast duration merged =
     (if merged \<noteq> [] \<and> duration > end' (last merged)
      then butlast merged @ [(last merged)\<lparr>end' := duration\<rparr>]
      else merged)"

text \<open>\<open>None\<close> is a merged tempo that is not a finite number.\<close>

definition buildTempoMap :: "real list \<Rightarrow> real \<Rightarrow> (TempoSegment list \<times> real option) option" where
  "buildTempoMap beats duration =
     (case foldl (\<lambda>merged interval. Option.bind merged (\<lambda>m. tempoMapMergeStep m interval))
             (Some []) (beatIntervals beats) of
        None \<Rightarrow> None
      | Some m \<Rightarrow>
          let merged = extendLast duration m
          in Some (merged, median (map bpm merged)))"

text \<open>The segments as the worker reports them (lines 186-190).\<close>

definition reportedSegments :: "TempoSegment list \<Rightarrow> TempoSegment list" where
  "reportedSegments segments =
     map (\<lambda>segment. \<lparr>start = of_int (Math_round (start segment * 10)) / 10,
                      end' = of_int (Math_round (end' segment * 10)) / 10,
                      bpm = of_int (Math_round (bpm segment * 10)) / 10\<rparr>) segments"

subsection \<open>Example buffers\<close>

text \<open>
  Three seconds at the fixed sample rate, silent but for two clicks that lie twelve hops
  apart.
\<close>

definition shortClicks :: "real list" where
  "shortClicks = (replicate 66150 0)[5376 := 1, 11520 := 1]"

text \<open>
  Seventy-five seconds at the fixed sample rate, silent but for three pairs of clicks: one
  pair in the first fifteen seconds, 43 hops apart; one pair between 30 s and 45 s, 41 hops
  apart; and a louder pair between 45 s and 60 s, 42 hops apart.
\<close>

definition clickTrack :: "real list" where
  "clickTrack = (replicate 1653750 0)
     [5376 := 1, 27392 := 1, 666876 := 1, 687868 := 1, 997626 := 2, 1019130 := 2]"

section \<open>Properties\<close>

subsection \<open>Octave folding returns, inside the range\<close>

lemma doubleWhileBelow_returns:
  "0 < v \<Longrightarrow> BPM_MIN \<le> v * 2 ^ n \<Longrightarrow>
   \<exists>r. doubleWhileBelow v = Some r \<and> BPM_MIN \<le> r \<and> (r = v \<or> r < 2 * BPM_MIN)"
proof (induction n arbitrary: v)
  case 0
  then show ?case by (subst doubleWhileBelow.simps) simp
next
  case (Suc n)
  show ?case
  proof (cases "v < BPM_MIN")
    case False
    then show ?thesis by (subst doubleWhileBelow.simps) simp
  next
    case True
    have "0 < v * 2" "BPM_MIN \<le> (v * 2) * 2 ^ n"
      using Suc.prems by (simp_all add: mult.assoc)
    from Suc.IH[OF this] obtain r where r: "doubleWhileBelow (v * 2) = Some r" "BPM_MIN \<le> r"
      "r = v * 2 \<or> r < 2 * BPM_MIN" by blast
    have "doubleWhileBelow v = Some r"
      using True r(1) by (subst doubleWhileBelow.simps) simp
    moreover have "r < 2 * BPM_MIN" using r(3) True by auto
    ultimately show ?thesis using r(2) by blast
  qed
qed

lemma halveWhileAbove_returns:
  "0 < v \<Longrightarrow> v \<le> BPM_MAX * 2 ^ n \<Longrightarrow>
   \<exists>r. halveWhileAbove v = Some r \<and> r \<le> BPM_MAX \<and> (r = v \<or> BPM_MAX / 2 < r)"
proof (induction n arbitrary: v)
  case 0
  then show ?case by (subst halveWhileAbove.simps) simp
next
  case (Suc n)
  show ?case
  proof (cases "v > BPM_MAX")
    case False
    then show ?thesis by (subst halveWhileAbove.simps) simp
  next
    case True
    have "0 < v / 2" "v / 2 \<le> BPM_MAX * 2 ^ n" using Suc.prems by simp_all
    from Suc.IH[OF this] obtain r where r: "halveWhileAbove (v / 2) = Some r" "r \<le> BPM_MAX"
      "r = v / 2 \<or> BPM_MAX / 2 < r" by blast
    have "halveWhileAbove v = Some r"
      using True r(1) by (subst halveWhileAbove.simps) simp
    moreover have "BPM_MAX / 2 < r" using r(3) True by auto
    ultimately show ?thesis using r(2) by blast
  qed
qed

lemma normalizeTempo_range:
  assumes "0 < b"
  shows "\<exists>r. normalizeTempo b = Some r \<and> BPM_MIN \<le> r \<and> r \<le> BPM_MAX"
proof -
  obtain n where n: "BPM_MIN / b < 2 ^ n"
    using real_arch_pow[of 2 "BPM_MIN / b"] by auto
  have "BPM_MIN \<le> b * 2 ^ n" using n assms by (simp add: field_simps)
  from doubleWhileBelow_returns[OF assms this] obtain r1 where
    r1: "doubleWhileBelow b = Some r1" "BPM_MIN \<le> r1" by blast
  have r1pos: "0 < r1" using r1(2) by (simp add: BPM_MIN_def)
  obtain m where m: "r1 / BPM_MAX < 2 ^ m"
    using real_arch_pow[of 2 "r1 / BPM_MAX"] by auto
  have "r1 \<le> BPM_MAX * 2 ^ m" using m by (simp add: field_simps BPM_MAX_def)
  from halveWhileAbove_returns[OF r1pos this] obtain r where
    r: "halveWhileAbove r1 = Some r" "r \<le> BPM_MAX" "r = r1 \<or> BPM_MAX / 2 < r" by blast
  have "BPM_MIN \<le> r" using r(3) r1(2) by (auto simp: BPM_MIN_def BPM_MAX_def)
  then show ?thesis using r1(1) r(1,2) by (simp add: normalizeTempo_def)
qed

lemma normalizeTempo_inside:
  assumes "BPM_MIN \<le> b" "b \<le> BPM_MAX"
  shows "normalizeTempo b = Some b"
proof -
  have a: "doubleWhileBelow b = Some b"
    using assms by (subst doubleWhileBelow.simps) simp
  have c: "halveWhileAbove b = Some b"
    using assms by (subst halveWhileAbove.simps) simp
  show ?thesis by (simp add: normalizeTempo_def a c)
qed

lemma normalizeTempo_double:
  assumes "b < BPM_MIN" "BPM_MIN \<le> 2 * b" "2 * b \<le> BPM_MAX"
  shows "normalizeTempo b = Some (2 * b)"
proof -
  have a: "doubleWhileBelow (b * 2) = Some (b * 2)"
    using assms by (subst doubleWhileBelow.simps) (simp add: mult.commute)
  have b: "doubleWhileBelow b = Some (b * 2)"
    using assms a by (subst doubleWhileBelow.simps) simp
  have c: "halveWhileAbove (b * 2) = Some (b * 2)"
    using assms by (subst halveWhileAbove.simps) (simp add: mult.commute)
  show ?thesis by (simp add: normalizeTempo_def b c mult.commute)
qed

lemma normalizeTempo_halve:
  assumes "BPM_MAX < b" "b / 2 \<le> BPM_MAX"
  shows "normalizeTempo b = Some (b / 2)"
proof -
  have a: "doubleWhileBelow b = Some b"
    using assms by (subst doubleWhileBelow.simps) (simp add: BPM_MIN_def BPM_MAX_def)
  have c: "halveWhileAbove (b / 2) = Some (b / 2)"
    using assms by (subst halveWhileAbove.simps) simp
  have d: "halveWhileAbove b = Some (b / 2)"
    using assms c by (subst halveWhileAbove.simps) simp
  show ?thesis by (simp add: normalizeTempo_def a d)
qed

subsection \<open>The cache file\<close>

lemma getProp_JObject [simp]: "getProp (JObject props) name = Inr (map_of props name)"
  by (simp add: getProp_def)

lemma field_JObject [simp]: "field (JObject props) name = map_of props name"
  by (simp add: field_def split: option.splits)

lemma truthy_analysisJson: "truthy (analysisJson a)"
  by (simp add: truthy_def analysisJson_def)

lemma readCache_cacheJson:
  "files w p = Some (Document (cacheJson c)) \<Longrightarrow>
   readCache w p st =
     (if audioMtimeMs c = mtimeMs st \<and> audioSize c = size' st
      then Some (analysisJson (analysis c)) else None)"
  by (simp add: readCache_def cacheJson_def truthy_analysisJson)

lemma readCache_hit:
  "files w p = Some (Document j) \<Longrightarrow> field j ''audioMtimeMs'' = Some (JNumber (mtimeMs st)) \<Longrightarrow>
   field j ''audioSize'' = Some (JNumber (size' st)) \<Longrightarrow> field j ''analysis'' = Some a \<Longrightarrow>
   truthy a \<Longrightarrow> readCache w p st = Some a"
  by (auto simp: readCache_def field_def split: sum.splits option.splits json.splits)

lemma readCache_unreadable:
  "files w p = None \<or> files w p = Some Unparsable \<Longrightarrow> readCache w p st = None"
  by (auto simp: readCache_def)

lemma readCache_malformed:
  "files w p = Some (Document j) \<Longrightarrow>
   field j ''audioMtimeMs'' \<noteq> Some (JNumber (mtimeMs st)) \<or>
   field j ''audioSize'' \<noteq> Some (JNumber (size' st)) \<or>
   (\<forall>a. field j ''analysis'' = Some a \<longrightarrow> \<not> truthy a) \<Longrightarrow> readCache w p st = None"
  by (auto simp: readCache_def field_def split: sum.splits option.splits json.splits)

lemma getSongAnalysis_unforced:
  "stats w audioPath = Some st \<Longrightarrow>
   getSongAnalysis w audioPath cacheDir songId False =
     (case readCache w (getCachePath cacheDir songId) st of
        Some c \<Rightarrow> Some (Resolved (Some c) w)
      | None \<Rightarrow> getSongAnalysis w audioPath cacheDir songId True)"
  by (simp add: getSongAnalysis_def Let_def split: option.splits)

subsection \<open>Rounding\<close>

lemma Math_round_mono: "x \<le> y \<Longrightarrow> Math_round x \<le> Math_round y"
  by (simp add: Math_round_def floor_mono)

lemma Math_round_of_int: "Math_round (of_int k) = k"
  by (simp add: Math_round_def)

lemma roundTo_bounds:
  assumes "real_of_int lo / 10 ^ d \<le> v" "v \<le> real_of_int hi / 10 ^ d"
  shows "real_of_int lo / 10 ^ d \<le> roundTo v d \<and> roundTo v d \<le> real_of_int hi / 10 ^ d"
proof -
  have p: "(0::real) < 10 ^ d" by simp
  have "of_int lo \<le> v * 10 ^ d" using assms(1) p by (simp add: field_simps)
  then have a: "lo \<le> Math_round (v * 10 ^ d)"
    using Math_round_mono[of "of_int lo" "v * 10 ^ d"] by (simp add: Math_round_of_int)
  have "v * 10 ^ d \<le> of_int hi" using assms(2) p by (simp add: field_simps)
  then have b: "Math_round (v * 10 ^ d) \<le> hi"
    using Math_round_mono[of "v * 10 ^ d" "of_int hi"] by (simp add: Math_round_of_int)
  show ?thesis using a b p by (simp add: roundTo_def Let_def divide_le_cancel)
qed

lemma roundTo_unit_interval: "0 \<le> v \<Longrightarrow> v \<le> 1 \<Longrightarrow> 0 \<le> roundTo v 3 \<and> roundTo v 3 \<le> 1"
  using roundTo_bounds[of 0 3 v 1000] by simp

subsection \<open>Merging tempo segments\<close>

lemma mergeTempoSegments_foldl: "mergeTempoSegments segments = foldl mergeStep [] segments"
  by (cases segments) (simp_all add: mergeTempoSegments_def)

lemma mergeTempoSegments_snoc:
  "mergeTempoSegments (xs @ [s]) = mergeStep (mergeTempoSegments xs) s"
  by (simp add: mergeTempoSegments_foldl)

lemma mergeTempoSegments_single: "mergeTempoSegments [a] = [a]"
  by (simp add: mergeTempoSegments_foldl mergeStep_def)

lemma mergeStep_close:
  "merged \<noteq> [] \<Longrightarrow> \<bar>bpm s - bpm (last merged)\<bar> \<le> BPM_MERGE_TOLERANCE \<Longrightarrow>
   mergeStep merged s =
     butlast merged @
       [(last merged)\<lparr>bpm := (bpm (last merged) * (end' (last merged) - start (last merged))
                               + bpm s * (end' s - start s))
                              / ((end' (last merged) - start (last merged)) + (end' s - start s)),
                      end' := max (end' (last merged)) (end' s)\<rparr>]"
  by (simp add: mergeStep_def Let_def)

lemma mergeStep_far:
  "merged \<noteq> [] \<Longrightarrow> \<not> \<bar>bpm s - bpm (last merged)\<bar> \<le> BPM_MERGE_TOLERANCE \<Longrightarrow>
   mergeStep merged s = merged @ [s]"
  by (simp add: mergeStep_def Let_def)

lemma mergeTempoSegments_nonempty: "xs \<noteq> [] \<Longrightarrow> mergeTempoSegments xs \<noteq> []"
proof (induction xs rule: rev_induct)
  case Nil then show ?case by simp
next
  case (snoc s xs)
  show ?case
    by (simp add: mergeTempoSegments_snoc mergeStep_def Let_def)
qed

subsection \<open>The two best template scores\<close>

text \<open>Both template tables have twelve rows, so every read \<open>templates ! i\<close> is in range.\<close>

lemma templates_length: "length MAJOR_TEMPLATES = 12" "length MINOR_TEMPLATES = 12"
  by (simp_all add: MAJOR_TEMPLATES_def MINOR_TEMPLATES_def buildTemplates_def normalizeVector_def
      MAJOR_TEMPLATE_def MINOR_TEMPLATE_def Let_def)

lemma scoreStep_best:
  "bestScore (scoreStep cv T m st i) =
     (if aboveScore (dot cv (T ! i)) (bestScore st) then Some (dot cv (T ! i)) else bestScore st)"
  by (simp add: scoreStep_def Let_def)

lemma scoreStep_second:
  "secondScore (scoreStep cv T m st i) =
     (if aboveScore (dot cv (T ! i)) (bestScore st) then bestScore st
      else if aboveScore (dot cv (T ! i)) (secondScore st) then Some (dot cv (T ! i))
      else secondScore st)"
  by (simp add: scoreStep_def Let_def)

lemma Max_snoc:
  assumes "ys \<noteq> []"
  shows "Max (set (ys @ [y])) = max y (Max (set ys))"
proof -
  have ne: "set ys \<noteq> {}" using assms by simp
  have fin: "finite (set ys)" by simp
  have s: "set (ys @ [y]) = insert y (set ys)" by simp
  show ?thesis unfolding s by (rule Max_insert[OF fin ne])
qed

lemma runnerUp_snoc_new_best:
  assumes "ys \<noteq> []" "Max (set ys) < y"
  shows "Max (set (ys @ [y])) = y" "runnerUp (ys @ [y]) = Max (set ys)"
proof -
  have fin: "finite (set ys)" by simp
  have "max y (Max (set ys)) = y" using assms(2) by linarith
  then show m: "Max (set (ys @ [y])) = y"
    using Max_snoc[OF assms(1), of y] by simp
  have "y \<notin> set ys"
  proof
    assume "y \<in> set ys"
    then have "y \<le> Max (set ys)" by (rule Max_ge[OF fin])
    then show False using assms(2) by linarith
  qed
  then have "remove1 y (ys @ [y]) = ys" by (simp add: remove1_append)
  then show "runnerUp (ys @ [y]) = Max (set ys)" by (simp only: runnerUp_def m)
qed

lemma runnerUp_snoc_old_best:
  assumes "ys \<noteq> []" "y \<le> Max (set ys)"
  shows "Max (set (ys @ [y])) = Max (set ys)"
    "runnerUp (ys @ [y]) = (if length ys < 2 then y else max (runnerUp ys) y)"
proof -
  have ne: "set ys \<noteq> {}" using assms(1) by simp
  have "max y (Max (set ys)) = Max (set ys)" using assms(2) by linarith
  then show m: "Max (set (ys @ [y])) = Max (set ys)"
    using Max_snoc[OF assms(1), of y] by simp
  have mem: "Max (set ys) \<in> set ys" using ne by (simp add: Max_in)
  then have r: "remove1 (Max (set ys)) (ys @ [y]) = remove1 (Max (set ys)) ys @ [y]"
    by (simp add: remove1_append)
  have len: "length (remove1 (Max (set ys)) ys) = length ys - 1"
    using mem by (simp add: length_remove1)
  have ru: "runnerUp (ys @ [y]) = Max (set (remove1 (Max (set ys)) ys @ [y]))"
    by (simp only: runnerUp_def m r)
  show "runnerUp (ys @ [y]) = (if length ys < 2 then y else max (runnerUp ys) y)"
  proof (cases "length ys < 2")
    case True
    then have "remove1 (Max (set ys)) ys = []" using len by auto
    then show ?thesis using True ru by simp
  next
    case False
    then have "remove1 (Max (set ys)) ys \<noteq> []" using len by auto
    from Max_snoc[OF this, of y] show ?thesis
      using False ru by (simp add: runnerUp_def max.commute)
  qed
qed

lemma runnerUp_le_Max: "2 \<le> length ys \<Longrightarrow> runnerUp ys \<le> Max (set ys)"
proof -
  assume l: "2 \<le> length ys"
  then have ne: "set ys \<noteq> {}" by auto
  have mem: "Max (set ys) \<in> set ys" using ne by (simp add: Max_in)
  have "length (remove1 (Max (set ys)) ys) = length ys - 1" using mem by (simp add: length_remove1)
  then have "remove1 (Max (set ys)) ys \<noteq> []" using l by auto
  then have ne2: "set (remove1 (Max (set ys)) ys) \<noteq> {}" by simp
  have "Max (set (remove1 (Max (set ys)) ys)) \<in> set (remove1 (Max (set ys)) ys)"
    using ne2 by (simp add: Max_in del: set_empty)
  then have "Max (set (remove1 (Max (set ys)) ys)) \<in> set ys"
    using set_remove1_subset by fastforce
  then show ?thesis by (simp add: runnerUp_def)
qed

lemma scoreStep_tracks:
  assumes "bestScore st = (if ys = [] then None else Some (Max (set ys)))"
    and "secondScore st = (if length ys < 2 then None else Some (runnerUp ys))"
  shows "bestScore (scoreStep cv T m st i) = Some (Max (set (ys @ [dot cv (T ! i)])))"
    and "secondScore (scoreStep cv T m st i) =
           (if length (ys @ [dot cv (T ! i)]) < 2 then None
            else Some (runnerUp (ys @ [dot cv (T ! i)])))"
proof -
  let ?y = "dot cv (T ! i)"
  show "bestScore (scoreStep cv T m st i) = Some (Max (set (ys @ [?y])))"
  proof (cases "ys = []")
    case True
    then show ?thesis using assms by (simp add: scoreStep_best aboveScore_def)
  next
    case False
    show ?thesis
    proof (cases "Max (set ys) < ?y")
      case True
      then show ?thesis using assms False runnerUp_snoc_new_best(1)[OF False True]
        by (simp add: scoreStep_best aboveScore_def)
    next
      case b: False
      then have "?y \<le> Max (set ys)" by simp
      then show ?thesis using assms False b runnerUp_snoc_old_best(1)[OF False, of "dot cv (T ! i)"]
        by (simp add: scoreStep_best aboveScore_def del: Max_less_iff set_append)
    qed
  qed
  show "secondScore (scoreStep cv T m st i) =
           (if length (ys @ [?y]) < 2 then None else Some (runnerUp (ys @ [?y])))"
  proof (cases "ys = []")
    case True
    then show ?thesis using assms by (simp add: scoreStep_second aboveScore_def)
  next
    case False
    then have l1: "1 \<le> length ys" by (cases ys) auto
    show ?thesis
    proof (cases "Max (set ys) < ?y")
      case True
      then show ?thesis using assms False l1 runnerUp_snoc_new_best(2)[OF False True]
        by (simp add: scoreStep_second aboveScore_def)
    next
      case b: False
      then have le: "?y \<le> Max (set ys)" by simp
      show ?thesis
      proof (cases "length ys < 2")
        case True
        then show ?thesis using assms False b l1 runnerUp_snoc_old_best(2)[OF False le]
          by (simp add: scoreStep_second aboveScore_def del: Max_less_iff)
      next
        case l2: False
        then show ?thesis using assms False b l1 runnerUp_snoc_old_best(2)[OF False le]
          by (auto simp: scoreStep_second aboveScore_def max_def simp del: Max_less_iff)
      qed
    qed
  qed
qed

lemma foldl_scoreStep_tracks:
  assumes "bestScore st = (if ys = [] then None else Some (Max (set ys)))"
    and "secondScore st = (if length ys < 2 then None else Some (runnerUp ys))"
  shows "bestScore (foldl (scoreStep cv T m) st js) =
           (if ys @ map (\<lambda>i. dot cv (T ! i)) js = [] then None
            else Some (Max (set (ys @ map (\<lambda>i. dot cv (T ! i)) js)))) \<and>
         secondScore (foldl (scoreStep cv T m) st js) =
           (if length (ys @ map (\<lambda>i. dot cv (T ! i)) js) < 2 then None
            else Some (runnerUp (ys @ map (\<lambda>i. dot cv (T ! i)) js)))"
  using assms
proof (induction js arbitrary: st ys)
  case Nil
  then show ?case by simp
next
  case (Cons j js)
  have a: "bestScore (scoreStep cv T m st j) =
       (if ys @ [dot cv (T ! j)] = [] then None else Some (Max (set (ys @ [dot cv (T ! j)]))))"
    using scoreStep_tracks(1)[OF Cons.prems] by simp
  have b: "secondScore (scoreStep cv T m st j) =
       (if length (ys @ [dot cv (T ! j)]) < 2 then None else Some (runnerUp (ys @ [dot cv (T ! j)])))"
    using scoreStep_tracks(2)[OF Cons.prems] by simp
  show ?case using Cons.IH[OF a b] by simp
qed

lemma scoreTemplates_tracks:
  "bestScore (scoreTemplates cv) = Some (Max (set (templateScores cv))) \<and>
   secondScore (scoreTemplates cv) = Some (runnerUp (templateScores cv))"
proof -
  let ?init = "\<lparr>bestScore = None, secondScore = None, bestIndex = 0, bestMode = major\<rparr>"
  let ?a = "foldl (scoreStep cv MAJOR_TEMPLATES major) ?init [0..<12]"
  let ?ys = "map (\<lambda>i. dot cv (MAJOR_TEMPLATES ! i)) [0..<12]"
  have l: "length ?ys = 12" by simp
  have 1: "bestScore ?a = (if ?ys = [] then None else Some (Max (set ?ys))) \<and>
        secondScore ?a = (if length ?ys < 2 then None else Some (runnerUp ?ys))"
    using foldl_scoreStep_tracks[of ?init "[]" cv MAJOR_TEMPLATES major "[0..<12]"]
    by (simp del: upt_Suc)
  have 2: "1 \<le> length (templateScores cv)" "2 \<le> length (templateScores cv)"
    by (simp_all add: templateScores_def)
  have ne: "templateScores cv \<noteq> []" using 2 by auto
  show ?thesis
    using foldl_scoreStep_tracks[OF conjunct1[OF 1] conjunct2[OF 1], of cv MINOR_TEMPLATES minor "[0..<12]"]
      2 ne
    unfolding scoreTemplates_def Let_def templateScores_def[symmetric]
    by (simp del: upt_Suc)
qed

lemma confidence_keyFromScores:
  "confidence (keyFromScores (scoreTemplates cv)) = spec_confidence (templateScores cv)"
  using scoreTemplates_tracks[of cv]
  by (simp add: keyFromScores_def spec_confidence_def Let_def)

lemma spec_confidence_range: "0 \<le> spec_confidence scores \<and> spec_confidence scores \<le> 1"
proof -
  let ?c = "if Max (set scores) > 0
            then max 0 (min 1 ((Max (set scores) - runnerUp scores) / Max (set scores))) else 0"
  have "0 \<le> ?c" "?c \<le> 1" by auto
  then have "0 \<le> roundTo ?c 3 \<and> roundTo ?c 3 \<le> 1" by (rule roundTo_unit_interval)
  then show ?thesis by (simp add: spec_confidence_def Let_def)
qed

subsection \<open>The transform and the chroma histogram\<close>

lemma foldl_plus_sum_list: "foldl (\<lambda>s t. s + f t) a xs = a + sum_list (map f xs)"
  for a :: real
  by (induction xs arbitrary: a) simp_all

lemma foldl_minus_sum_list: "foldl (\<lambda>s t. s - f t) a xs = a - sum_list (map f xs)"
  for a :: real
  by (induction xs arbitrary: a) simp_all

lemma sum_list_all_zero: "(\<And>x. x \<in> set xs \<Longrightarrow> f x = 0) \<Longrightarrow> sum_list (map f xs) = (0::real)"
  by (induction xs) simp_all

lemma sum_list_upt_single:
  assumes "p < n" "\<And>t. t < n \<Longrightarrow> t \<noteq> p \<Longrightarrow> f t = 0"
  shows "sum_list (map f [0..<n]) = (f p :: real)"
proof -
  have "sum_list (map f [0..<n]) = (\<Sum>t = 0..<n. f t)"
    by (simp add: interv_sum_list_conv_sum_set_nat)
  also have "\<dots> = (\<Sum>t \<in> {p}. f t)"
    by (rule sum.mono_neutral_right) (use assms in auto)
  finally show ?thesis by simp
qed

lemma concat_pairs_length: "length (concat (map (\<lambda>k. [a k, b k]) [0..<n])) = 2 * n"
  by (induction n) simp_all

lemma concat_pairs_nth:
  "k < n \<Longrightarrow> concat (map (\<lambda>k. [a k, b k]) [0..<n]) ! (k * 2) = a k \<and>
            concat (map (\<lambda>k. [a k, b k]) [0..<n]) ! (k * 2 + 1) = b k"
proof (induction n)
  case 0
  then show ?case by simp
next
  case (Suc n)
  show ?case
  proof (cases "k < n")
    case True
    then show ?thesis using Suc.IH
      by (simp add: nth_append concat_pairs_length)
  next
    case False
    then have "k = n" using Suc.prems by simp
    then show ?thesis by (simp add: nth_append concat_pairs_length)
  qed
qed

lemma realTransform_nth:
  "k < length frame \<Longrightarrow>
   realTransform frame ! (k * 2) = fst (dftBin frame k) \<and>
   realTransform frame ! (k * 2 + 1) = snd (dftBin frame k)"
  unfolding realTransform_def by (rule concat_pairs_nth)

lemma dftBin_zero: "dftBin (replicate n 0) k = (0, 0)"
proof -
  have "(\<Sum>t\<leftarrow>[0..<n]. replicate n 0 ! t * cos (2 * pi * real k * real t / real n)) = (0::real)"
    by (rule sum_list_all_zero) simp
  moreover
  have "(\<Sum>t\<leftarrow>[0..<n]. replicate n 0 ! t * sin (2 * pi * real k * real t / real n)) = (0::real)"
    by (rule sum_list_all_zero) simp
  ultimately show ?thesis
    by (simp add: dftBin_def foldl_plus_sum_list foldl_minus_sum_list)
qed

lemma dftBin_single:
  assumes "p < length frame" "\<And>t. t < length frame \<Longrightarrow> t \<noteq> p \<Longrightarrow> frame ! t = 0"
  shows "dftBin frame k =
     (frame ! p * cos (2 * pi * real k * real p / real (length frame)),
      - (frame ! p * sin (2 * pi * real k * real p / real (length frame))))"
  using assms
  by (simp add: dftBin_def Let_def foldl_plus_sum_list foldl_minus_sum_list
      sum_list_upt_single[of p])

lemma js_rem_range: "0 < m \<Longrightarrow> - m < js_rem a m \<and> js_rem a m < m"
proof -
  assume m: "0 < m"
  have "0 \<le> \<bar>a\<bar> mod \<bar>m\<bar>" "\<bar>a\<bar> mod \<bar>m\<bar> < m" using m by simp_all
  then show ?thesis by (cases "a < 0"; cases "a = 0") (auto simp: js_rem_def)
qed

lemma js_rem_nonneg: "0 \<le> a \<Longrightarrow> 0 < m \<Longrightarrow> 0 \<le> js_rem a m \<and> js_rem a m < m"
  by (cases "a = 0") (auto simp: js_rem_def)

lemma modulo_range: "0 < m \<Longrightarrow> 0 \<le> modulo v m \<and> modulo v m < m"
  using js_rem_range[of m v] js_rem_nonneg[of "js_rem v m + m" m] by (simp add: modulo_def)

lemma binStep_zero_spectrum:
  assumes "spectrum ! (bin * 2) = 0" "spectrum ! (bin * 2 + 1) = 0"
  shows "binStep sampleRate spectrum chroma bin = chroma"
  using assms by (simp add: binStep_def Let_def)

lemma foldl_binStep_zero:
  assumes "\<And>bin. bin \<in> set bins \<Longrightarrow> spectrum ! (bin * 2) = 0 \<and> spectrum ! (bin * 2 + 1) = 0"
  shows "foldl (binStep sampleRate spectrum) chroma bins = chroma"
  using assms by (induction bins arbitrary: chroma) (simp_all add: binStep_zero_spectrum)

lemma realTransform_zero:
  "k < n \<Longrightarrow> realTransform (replicate n 0) ! (k * 2) = 0 \<and>
            realTransform (replicate n 0) ! (k * 2 + 1) = 0"
  using realTransform_nth[of k "replicate n 0"] by (simp add: dftBin_zero)

lemma zero_frame:
  assumes "st + KEY_FRAME_SIZE \<le> n"
  shows "map (\<lambda>i. replicate n (0::real) ! (st + i) * HANN_WINDOW ! i) [0..<KEY_FRAME_SIZE]
         = replicate KEY_FRAME_SIZE 0"
proof -
  have "map (\<lambda>i. replicate n (0::real) ! (st + i) * HANN_WINDOW ! i) [0..<KEY_FRAME_SIZE]
        = map (\<lambda>i. 0) [0..<KEY_FRAME_SIZE]"
    by (rule map_cong) (use assms in auto)
  then show ?thesis by (simp add: map_replicate_const)
qed

lemma keyFrameLoop_zero:
  "maxSamples \<le> n \<Longrightarrow> keyFrameLoop (replicate n 0) sampleRate maxSamples st chroma = chroma"
proof (induction "replicate n (0::real)" sampleRate maxSamples st chroma rule: keyFrameLoop.induct)
  case (1 sampleRate maxSamples st chroma)
  show ?case
  proof (cases "st + KEY_FRAME_SIZE \<le> maxSamples")
    case False
    then show ?thesis by (subst keyFrameLoop.simps) simp
  next
    case True
    then have le: "st + KEY_FRAME_SIZE \<le> n" using "1.prems" by simp
    have fr: "map (\<lambda>i. replicate n (0::real) ! (st + i) * HANN_WINDOW ! i) [0..<KEY_FRAME_SIZE]
         = replicate KEY_FRAME_SIZE 0" by (rule zero_frame[OF le])
    have fo: "foldl (binStep sampleRate (realTransform (replicate KEY_FRAME_SIZE 0))) chroma
                [1..<KEY_FRAME_SIZE div 2] = chroma"
    proof (rule foldl_binStep_zero)
      fix bin assume "bin \<in> set [1..<KEY_FRAME_SIZE div 2]"
      then have "bin < KEY_FRAME_SIZE" by (simp add: KEY_FRAME_SIZE_def)
      then show "realTransform (replicate KEY_FRAME_SIZE 0) ! (bin * 2) = 0 \<and>
                 realTransform (replicate KEY_FRAME_SIZE 0) ! (bin * 2 + 1) = 0"
        by (rule realTransform_zero)
    qed
    have "keyFrameLoop (replicate n 0) sampleRate maxSamples (st + KEY_HOP_SIZE) chroma = chroma"
      using "1.hyps"[OF True refl refl refl] "1.prems" by (simp only: fr fo)
    then show ?thesis using True
      by (subst keyFrameLoop.simps) (simp add: fr fo Let_def del: One_nat_def)
  qed
qed

lemma normalizeVector_zero: "normalizeVector (replicate n 0) = None"
proof -
  have "foldl (\<lambda>s v. s + v * v) 0 (replicate n (0::real)) = 0"
    by (induction n) simp_all
  then show ?thesis by (simp add: normalizeVector_def)
qed

lemma chromaVectorOf_zero: "chromaVectorOf (replicate n 0) sampleRate = None"
proof -
  have "nat (min (int n) \<lfloor>KEY_MAX_SECONDS * sampleRate\<rfloor>) \<le> n" by simp
  then show ?thesis
    by (simp add: chromaVectorOf_def Let_def keyFrameLoop_zero normalizeVector_zero)
qed

lemma estimateKey_zero: "estimateKey (replicate n 0) sampleRate = None"
  by (simp add: estimateKey_def chromaVectorOf_zero)

subsection \<open>A buffer of zeros\<close>

lemma frameEnergy_sum:
  "frameEnergy samples offset = (\<Sum>i = 0..<frameSize. samples ! (offset + i) * samples ! (offset + i))"
  by (simp add: frameEnergy_def foldl_plus_sum_list interv_sum_list_conv_sum_set_nat)

lemma frameEnergy_zero:
  "offset + frameSize \<le> n \<Longrightarrow> frameEnergy (replicate n 0) offset = 0"
  by (simp add: frameEnergy_sum)

lemma frame_in_range:
  assumes "frameSize * 2 \<le> n" "frame < (n - frameSize) div hopSize + 1"
  shows "frame * hopSize + frameSize \<le> n"
proof -
  have "frame \<le> (n - frameSize) div hopSize" using assms(2) by simp
  then have "frame * hopSize \<le> ((n - frameSize) div hopSize) * hopSize" by simp
  also have "\<dots> \<le> n - frameSize" by (simp add: hopSize_def)
  finally show ?thesis using assms(1) by (simp add: frameSize_def)
qed

lemma frameEnergies_zero:
  assumes "frameSize * 2 \<le> n" "frameCount \<le> (n - frameSize) div hopSize + 1"
  shows "frameEnergies (replicate n 0) frameCount = replicate frameCount 0"
proof -
  have "map (\<lambda>frame. frameEnergy (replicate n 0) (frame * hopSize)) [0..<frameCount]
        = map (\<lambda>frame. 0) [0..<frameCount]"
  proof (rule map_cong[OF refl])
    fix frame assume "frame \<in> set [0..<frameCount]"
    then have "frame < (n - frameSize) div hopSize + 1" using assms(2) by auto
    from frame_in_range[OF assms(1) this] show "frameEnergy (replicate n 0) (frame * hopSize) = 0"
      by (rule frameEnergy_zero)
  qed
  then show ?thesis by (simp add: frameEnergies_def map_replicate_const)
qed

lemma foldl_plus_zero: "foldl (+) 0 (replicate k (0::real)) = 0"
  by (induction k) simp_all

lemma onsetDiffs_zero: "onsetDiffs (replicate k 0) = replicate (k - 1) 0"
proof -
  have "map (\<lambda>i. let diff = replicate k (0::real) ! i - replicate k 0 ! (i - 1)
                 in if diff > 0 then diff else 0) [1..<k] = map (\<lambda>i. 0) [1..<k]"
    by (rule map_cong[OF refl]) auto
  then show ?thesis by (simp add: onsetDiffs_def map_replicate_const)
qed

lemma onsetStrength_zero: "onsetStrength (replicate k 0) = replicate (k - 1) 0"
  by (simp add: onsetStrength_def onsetDiffs_zero Let_def foldl_plus_zero)

lemma autocorrelation_zero: "autocorrelation (replicate k 0) lag = 0"
proof -
  have "sum_list (map (\<lambda>i. replicate k (0::real) ! i * replicate k 0 ! (i - lag)) [lag..<k]) = 0"
    by (rule sum_list_all_zero) simp
  then show ?thesis by (simp add: autocorrelation_def foldl_plus_sum_list)
qed

lemma foldl_lagStep_zero: "foldl (lagStep (replicate k 0)) (0, 0) lags = (0, 0)"
  by (induction lags) (simp_all add: lagStep_def autocorrelation_zero)

lemma searchLag_zero: "searchLag (replicate k 0) sampleRate = 0"
  by (simp add: searchLag_def foldl_lagStep_zero)

lemma estimateTempo_zero: "estimateTempo (replicate n 0) sampleRate = Some None"
proof (cases "n < frameSize * 2")
  case True
  then show ?thesis by (simp add: estimateTempo_def)
next
  case False
  then have n: "frameSize * 2 \<le> n" by simp
  define frameCount where "frameCount = (n - frameSize) div hopSize + 1"
  have e: "frameEnergies (replicate n 0) frameCount = replicate frameCount 0"
    by (rule frameEnergies_zero[OF n]) (simp add: frameCount_def)
  show ?thesis
    unfolding estimateTempo_def Let_def length_replicate frameCount_def[symmetric]
    by (simp add: e onsetStrength_zero searchLag_zero)
qed

lemma windowLoop_zero:
  "windowLoop (replicate n 0) sampleRate windowSamples hopSamples st segments = Some segments"
proof (induction "replicate n (0::real)" sampleRate windowSamples hopSamples st segments
    rule: windowLoop.induct)
  case (1 sampleRate windowSamples hopSamples st segments)
  show ?case
  proof (cases "0 < hopSamples \<and> st + windowSamples \<le> length (replicate n (0::real))")
    case False
    then show ?thesis by (subst windowLoop.simps) (simp only: if_False)
  next
    case True
    have "min windowSamples (n - st) = windowSamples" using True by auto
    then have sl: "take (st + windowSamples - st) (drop st (replicate n (0::real)))
                   = replicate windowSamples 0"
      by simp
    have est: "estimateTempo (take (st + windowSamples - st) (drop st (replicate n (0::real)))) sampleRate
               = Some None"
      by (simp only: sl estimateTempo_zero)
    have "windowLoop (replicate n 0) sampleRate windowSamples hopSamples (st + hopSamples) segments
          = Some segments"
      using "1.hyps"(1)[OF True refl refl est refl] .
    then show ?thesis using True est
      by (subst windowLoop.simps) (simp add: Let_def del: length_replicate take_replicate drop_replicate)
  qed
qed

lemma buildTempoSegments_zero: "buildTempoSegments (replicate n 0) sampleRate = Some []"
  by (simp add: buildTempoSegments_def Let_def windowLoop_zero mergeTempoSegments_def)

lemma assembleAnalysis_zero:
  "assembleAnalysis (replicate n 0) = Some \<lparr>overallBpm = None, bpmSegments = [], key = None\<rparr>"
  by (simp add: assembleAnalysis_def buildTempoSegments_zero pickOverallBpm_def
      estimateTempo_zero estimateKey_zero)

subsection \<open>The chroma histogram is not zero when one bin in the band has energy\<close>

lemma binStep_length: "length (binStep sampleRate spectrum chroma bin) = length chroma"
  by (simp add: binStep_def Let_def)

lemma list_update_add_ge:
  fixes c :: "real list"
  shows "0 \<le> m \<Longrightarrow> i < length c \<Longrightarrow> c ! i \<le> c[pc := c ! pc + m] ! i"
  by (cases "i = pc") simp_all

lemma modulo_nat_less: "nat (modulo v 12) < 12"
  using modulo_range[of 12 v] by linarith

lemma nonneg_member_le_sum_list:
  fixes xs :: "real list"
  assumes "\<And>x. x \<in> set xs \<Longrightarrow> 0 \<le> x" "y \<in> set xs"
  shows "y \<le> sum_list xs"
  using assms
proof (induction xs)
  case Nil
  then show ?case by simp
next
  case (Cons x xs)
  have nn: "0 \<le> sum_list xs" using Cons.prems(1) by (simp add: sum_list_nonneg)
  have x: "0 \<le> x" using Cons.prems(1) by simp
  show ?case
  proof (cases "y = x")
    case True
    then show ?thesis using nn by simp
  next
    case False
    then have "y \<in> set xs" using Cons.prems(2) by simp
    then have "y \<le> sum_list xs" using Cons.IH Cons.prems(1) by simp
    then show ?thesis using x by simp
  qed
qed

lemma binStep_nth_ge:
  assumes "\<forall>i<length chroma. 0 \<le> chroma ! i" "i < length chroma"
  shows "chroma ! i \<le> binStep sampleRate spectrum chroma bin ! i"
proof -
  have m: "0 \<le> spectrum ! (bin * 2) * spectrum ! (bin * 2) +
               spectrum ! (bin * 2 + 1) * spectrum ! (bin * 2 + 1)"
    by simp
  show ?thesis
    unfolding binStep_def Let_def
    using list_update_add_ge[OF m assms(2)] by simp
qed

lemma foldl_binStep_length:
  "length (foldl (binStep sampleRate spectrum) chroma bins) = length chroma"
  by (induction bins arbitrary: chroma) (simp_all add: binStep_length)

lemma foldl_binStep_nth_ge:
  assumes "\<forall>i<length chroma. 0 \<le> chroma ! i" "i < length chroma"
  shows "chroma ! i \<le> foldl (binStep sampleRate spectrum) chroma bins ! i"
  using assms
proof (induction bins arbitrary: chroma)
  case Nil
  then show ?case by simp
next
  case (Cons b bins)
  let ?c = "binStep sampleRate spectrum chroma b"
  have len: "length ?c = length chroma" by (rule binStep_length)
  have nn: "\<forall>i<length ?c. 0 \<le> ?c ! i"
  proof (intro allI impI)
    fix j assume "j < length ?c"
    then have j: "j < length chroma" using len by simp
    have "0 \<le> chroma ! j" using Cons.prems(1) j by simp
    also have "\<dots> \<le> ?c ! j" by (rule binStep_nth_ge[OF Cons.prems(1) j])
    finally show "0 \<le> ?c ! j" .
  qed
  have "chroma ! i \<le> ?c ! i" by (rule binStep_nth_ge[OF Cons.prems])
  also have "\<dots> \<le> foldl (binStep sampleRate spectrum) ?c bins ! i"
    using Cons.IH[OF nn] Cons.prems(2) len by simp
  finally show ?case by simp
qed

lemma binStep_adds:
  assumes "length chroma = 12"
    and "KEY_MIN_FREQ \<le> (real bin * sampleRate) / real KEY_FRAME_SIZE"
    and "(real bin * sampleRate) / real KEY_FRAME_SIZE \<le> KEY_MAX_FREQ"
  shows "\<exists>pc<12. binStep sampleRate spectrum chroma bin ! pc =
           chroma ! pc + (spectrum ! (bin * 2) * spectrum ! (bin * 2) +
                          spectrum ! (bin * 2 + 1) * spectrum ! (bin * 2 + 1))"
proof -
  let ?pc = "nat (modulo (Math_round (69 + 12 * log 2 ((real bin * sampleRate) / real KEY_FRAME_SIZE / 440))) 12)"
  have "?pc < 12" by (rule modulo_nat_less)
  moreover have "binStep sampleRate spectrum chroma bin ! ?pc =
           chroma ! ?pc + (spectrum ! (bin * 2) * spectrum ! (bin * 2) +
                          spectrum ! (bin * 2 + 1) * spectrum ! (bin * 2 + 1))"
    using assms \<open>?pc < 12\<close> by (simp add: binStep_def Let_def del: One_nat_def)
  ultimately show ?thesis by blast
qed

lemma foldl_binStep_positive:
  assumes "length chroma = 12" "\<forall>i<length chroma. 0 \<le> chroma ! i"
    and "bin \<in> set bins"
    and "KEY_MIN_FREQ \<le> (real bin * sampleRate) / real KEY_FRAME_SIZE"
    and "(real bin * sampleRate) / real KEY_FRAME_SIZE \<le> KEY_MAX_FREQ"
    and "0 < spectrum ! (bin * 2) * spectrum ! (bin * 2) +
             spectrum ! (bin * 2 + 1) * spectrum ! (bin * 2 + 1)"
  shows "\<exists>pc<12. 0 < foldl (binStep sampleRate spectrum) chroma bins ! pc"
  using assms(1,2,3)
proof (induction bins arbitrary: chroma)
  case Nil
  then show ?case by simp
next
  case (Cons b bins)
  let ?c = "binStep sampleRate spectrum chroma b"
  have len: "length ?c = 12" using Cons.prems(1) by (simp add: binStep_length)
  have nn: "\<forall>i<length ?c. 0 \<le> ?c ! i"
  proof (intro allI impI)
    fix j assume "j < length ?c"
    then have j: "j < length chroma" by (simp add: binStep_length)
    have "0 \<le> chroma ! j" using Cons.prems(2) j by simp
    also have "\<dots> \<le> ?c ! j" by (rule binStep_nth_ge[OF Cons.prems(2) j])
    finally show "0 \<le> ?c ! j" .
  qed
  show ?case
  proof (cases "bin = b")
    case True
    from binStep_adds[OF Cons.prems(1) assms(4,5), of spectrum] obtain pc where
      pc: "pc < 12" "binStep sampleRate spectrum chroma bin ! pc =
         chroma ! pc + (spectrum ! (bin * 2) * spectrum ! (bin * 2) +
                          spectrum ! (bin * 2 + 1) * spectrum ! (bin * 2 + 1))" by blast
    have "0 \<le> chroma ! pc" using Cons.prems(1,2) pc(1) by simp
    then have "0 < ?c ! pc" using pc(2) assms(6) True by simp
    also have "\<dots> \<le> foldl (binStep sampleRate spectrum) ?c bins ! pc"
      by (rule foldl_binStep_nth_ge[OF nn]) (simp add: len pc(1))
    finally show ?thesis using pc(1) by auto
  next
    case False
    then have "bin \<in> set bins" using Cons.prems(3) by simp
    from Cons.IH[OF len nn this] show ?thesis by simp
  qed
qed

lemma sum_squares_positive:
  fixes vals :: "real list"
  assumes "i < length vals" "0 < vals ! i"
  shows "0 < foldl (\<lambda>s v. s + v * v) 0 vals"
proof -
  have nn: "\<And>x::real. x \<in> set (map (\<lambda>v. v * v) vals) \<Longrightarrow> 0 \<le> x" by auto
  have "vals ! i * vals ! i \<in> set (map (\<lambda>v. v * v) vals)" using assms(1) by auto
  then have "vals ! i * vals ! i \<le> sum_list (map (\<lambda>v. v * v) vals)"
    using nonneg_member_le_sum_list[of "map (\<lambda>v. v * v) vals" "vals ! i * vals ! i"] nn
    by blast
  moreover have "0 < vals ! i * vals ! i" using assms(2) by simp
  ultimately show ?thesis by (simp add: foldl_plus_sum_list)
qed

lemma normalizeVector_defined:
  "i < length vals \<Longrightarrow> 0 < vals ! i \<Longrightarrow> \<exists>v. normalizeVector vals = Some v"
  using sum_squares_positive[of i vals] by (simp add: normalizeVector_def Let_def)


lemma HANN_WINDOW_nth:
  "i < KEY_FRAME_SIZE \<Longrightarrow>
   HANN_WINDOW ! i = 0.5 - 0.5 * cos ((2 * pi * real i) / (real KEY_FRAME_SIZE - 1))"
  by (simp add: HANN_WINDOW_def buildHannWindow_def Let_def)

lemma HANN_WINDOW_1365: "HANN_WINDOW ! 1365 = 3 / 4"
proof -
  have e: "(2 * pi * real 1365) / (real KEY_FRAME_SIZE - 1) = 2 * pi / 3"
    by (simp add: KEY_FRAME_SIZE_def)
  have c: "cos ((2 * pi * real 1365) / (real KEY_FRAME_SIZE - 1)) = - 1 / 2"
    unfolding e by (rule cos_120)
  have "HANN_WINDOW ! 1365 = 0.5 - 0.5 * cos ((2 * pi * real 1365) / (real KEY_FRAME_SIZE - 1))"
    by (rule HANN_WINDOW_nth) (simp add: KEY_FRAME_SIZE_def)
  also have "\<dots> = 0.5 - 0.5 * (- 1 / 2)" by (simp only: c)
  also have "\<dots> = 3 / 4" by simp
  finally show ?thesis .
qed

lemma clickFrame_length: "length clickFrame = 4096"
  by (simp add: clickFrame_def)

lemma clickFrame_nth: "t < 4096 \<Longrightarrow> clickFrame ! t = (if t = 1365 then 1 else 0)"
  by (simp add: clickFrame_def nth_list_update)

lemma scaled_square_sum:
  "(3 / 4 * c) * (3 / 4 * c) + (- (3 / 4 * s)) * (- (3 / 4 * s)) = 9 / 16 * (c * c + s * s)"
  for c s :: real
  by (simp add: algebra_simps)

lemma click_magnitude:
  fixes frame :: "real list"
  assumes "frame = map (\<lambda>i. clickFrame ! (0 + i) * HANN_WINDOW ! i) [0..<KEY_FRAME_SIZE]"
    and "k < KEY_FRAME_SIZE"
  shows "realTransform frame ! (k * 2) * realTransform frame ! (k * 2)
         + realTransform frame ! (k * 2 + 1) * realTransform frame ! (k * 2 + 1) = 9 / 16"
proof -
  have len: "length frame = 4096" using assms(1) by (simp add: KEY_FRAME_SIZE_def)
  have p: "frame ! 1365 = 3 / 4"
    using assms(1) by (simp add: KEY_FRAME_SIZE_def clickFrame_nth HANN_WINDOW_1365)
  have z: "\<And>t. t < length frame \<Longrightarrow> t \<noteq> 1365 \<Longrightarrow> frame ! t = 0"
    using assms(1) by (simp add: KEY_FRAME_SIZE_def clickFrame_nth)
  have lt: "1365 < length frame" using len by simp
  have k: "k < length frame" using assms(2) len by (simp add: KEY_FRAME_SIZE_def)
  define th where "th = 2 * pi * real k * real 1365 / real (length frame)"
  have d: "dftBin frame k = (3 / 4 * cos th, - (3 / 4 * sin th))"
    using dftBin_single[OF lt z, of k] p by (simp add: th_def)
  have r: "realTransform frame ! (k * 2) = 3 / 4 * cos th"
    using realTransform_nth[OF k] d by simp
  have i: "realTransform frame ! (k * 2 + 1) = - (3 / 4 * sin th)"
    using realTransform_nth[OF k] d by simp
  have "realTransform frame ! (k * 2) * realTransform frame ! (k * 2)
         + realTransform frame ! (k * 2 + 1) * realTransform frame ! (k * 2 + 1)
         = (3 / 4 * cos th) * (3 / 4 * cos th) + (- (3 / 4 * sin th)) * (- (3 / 4 * sin th))"
    by (simp only: r i)
  also have "\<dots> = 9 / 16 * (cos th * cos th + sin th * sin th)"
    by (rule scaled_square_sum)
  also have "\<dots> = 9 / 16 * 1"
    using sin_cos_squared_add2[of th] by (simp only: power2_eq_square)
  also have "\<dots> = 9 / 16" by simp
  finally show ?thesis .
qed

lemma chromaVectorOf_clickFrame: "\<exists>v. chromaVectorOf clickFrame SAMPLE_RATE = Some v"
proof -
  define frame where
    "frame = map (\<lambda>i. clickFrame ! (0 + i) * HANN_WINDOW ! i) [0..<KEY_FRAME_SIZE]"
  define chroma where
    "chroma = foldl (binStep SAMPLE_RATE (realTransform frame)) (replicate 12 0)
                [1..<KEY_FRAME_SIZE div 2]"
  have mag: "0 < realTransform frame ! (12 * 2) * realTransform frame ! (12 * 2)
         + realTransform frame ! (12 * 2 + 1) * realTransform frame ! (12 * 2 + 1)"
    using click_magnitude[OF frame_def, of 12] by (simp add: KEY_FRAME_SIZE_def)
  have "\<exists>pc<12. 0 < chroma ! pc"
    unfolding chroma_def
    by (rule foldl_binStep_positive[where bin = 12, OF _ _ _ _ _ mag])
       (simp_all add: KEY_FRAME_SIZE_def KEY_MIN_FREQ_def KEY_MAX_FREQ_def SAMPLE_RATE_def)
  then obtain pc where pc: "pc < 12" "0 < chroma ! pc" by blast
  have len: "length chroma = 12" by (simp add: chroma_def foldl_binStep_length)
  have loop2: "keyFrameLoop clickFrame SAMPLE_RATE 4096 (0 + KEY_HOP_SIZE) chroma = chroma"
    by (subst keyFrameLoop.simps) (simp add: KEY_HOP_SIZE_def KEY_FRAME_SIZE_def)
  have loop: "keyFrameLoop clickFrame SAMPLE_RATE 4096 0 (replicate 12 0) = chroma"
    apply (subst keyFrameLoop.simps)
    apply (simp only: Let_def frame_def[symmetric] chroma_def[symmetric] loop2)
    apply (simp add: KEY_FRAME_SIZE_def)
    done
  have "\<exists>v. normalizeVector chroma = Some v"
    by (rule normalizeVector_defined[of pc]) (simp_all add: len pc)
  moreover have "min (int (length clickFrame)) \<lfloor>KEY_MAX_SECONDS * SAMPLE_RATE\<rfloor> = 4096"
    by (simp add: clickFrame_length KEY_MAX_SECONDS_def SAMPLE_RATE_def)
  ultimately show ?thesis
    by (simp add: chromaVectorOf_def Let_def loop KEY_FRAME_SIZE_def)
qed

lemma estimateKey_clickFrame: "\<exists>k. estimateKey clickFrame SAMPLE_RATE = Some k"
  using chromaVectorOf_clickFrame by (auto simp: estimateKey_def)

subsection \<open>The onset-autocorrelation strategy stays inside its range\<close>

lemma foldl_lagStep_fst:
  "fst (foldl (lagStep onset) best lags) = fst best \<or> fst (foldl (lagStep onset) best lags) \<in> set lags"
proof (induction lags arbitrary: best)
  case Nil
  then show ?case by simp
next
  case (Cons l lags)
  have "fst (lagStep onset best l) = fst best \<or> fst (lagStep onset best l) = l"
    by (simp add: lagStep_def Let_def)
  then show ?case using Cons.IH[of "lagStep onset best l"] by auto
qed

lemma searchLag_cases:
  "searchLag onset sampleRate = 0 \<or>
   (minLag sampleRate \<le> int (searchLag onset sampleRate) \<and>
    int (searchLag onset sampleRate) \<le> maxLag sampleRate)"
proof -
  define l where "l = searchLag onset sampleRate"
  have "l = 0 \<or> l \<in> set [nat (minLag sampleRate)..<nat (maxLag sampleRate + 1)]"
    using foldl_lagStep_fst[of onset "(0, 0)" "[nat (minLag sampleRate)..<nat (maxLag sampleRate + 1)]"]
    by (simp add: searchLag_def l_def)
  then have "l = 0 \<or> (nat (minLag sampleRate) \<le> l \<and> l < nat (maxLag sampleRate + 1))"
    by simp
  then have "l = 0 \<or> (minLag sampleRate \<le> int l \<and> int l \<le> maxLag sampleRate)"
    by linarith
  then show ?thesis by (simp add: l_def)
qed

lemma searchLag_positive_rate:
  assumes "searchLag onset sampleRate \<noteq> 0"
  shows "0 < sampleRate"
proof -
  have "1 \<le> minLag sampleRate" by (simp add: minLag_def)
  then have "1 \<le> maxLag sampleRate" using searchLag_cases[of onset sampleRate] assms by linarith
  then have "(1::real) \<le> (60 / BPM_MIN) * sampleRate / real hopSize"
    unfolding maxLag_def by (simp add: le_floor_iff)
  then show ?thesis by (simp add: BPM_MIN_def hopSize_def)
qed

lemma estimateTempo_returns:
  "\<exists>r. estimateTempo samples sampleRate = Some r \<and>
       (\<forall>b. r = Some b \<longrightarrow> BPM_MIN \<le> b \<and> b \<le> BPM_MAX)"
proof (cases "length samples < frameSize * 2 \<or> (length samples - frameSize) div hopSize + 1 \<le> 2")
  case True
  then show ?thesis by (auto simp: estimateTempo_def Let_def)
next
  case False
  define onset where
    "onset = onsetStrength (frameEnergies samples ((length samples - frameSize) div hopSize + 1))"
  have eq: "estimateTempo samples sampleRate =
     (if searchLag onset sampleRate = 0 then Some None
      else map_option Some
             (normalizeTempo (60 * sampleRate / (real (searchLag onset sampleRate) * real hopSize))))"
    unfolding estimateTempo_def Let_def onset_def using False by simp
  show ?thesis
  proof (cases "searchLag onset sampleRate = 0")
    case True
    then show ?thesis by (simp add: eq)
  next
    case nz: False
    then have "0 < sampleRate" by (rule searchLag_positive_rate)
    then have "0 < 60 * sampleRate / (real (searchLag onset sampleRate) * real hopSize)"
      using nz by (simp add: hopSize_def)
    from normalizeTempo_range[OF this] obtain b where
      b: "normalizeTempo (60 * sampleRate / (real (searchLag onset sampleRate) * real hopSize)) = Some b"
         "BPM_MIN \<le> b" "b \<le> BPM_MAX" by blast
    show ?thesis using nz b by (simp add: eq)
  qed
qed

lemma estimateTempo_in_range:
  "estimateTempo samples sampleRate = Some (Some b) \<Longrightarrow> BPM_MIN \<le> b \<and> b \<le> BPM_MAX"
  using estimateTempo_returns[of samples sampleRate] by auto

lemma windowLoop_returns:
  assumes "0 < sampleRate" "0 < windowSamples"
    and "\<forall>s\<in>set segments. start s < end' s \<and> BPM_MIN \<le> bpm s \<and> bpm s \<le> BPM_MAX"
  shows "\<exists>r. windowLoop samples sampleRate windowSamples hopSamples st segments = Some r \<and>
            (\<forall>s\<in>set r. start s < end' s \<and> BPM_MIN \<le> bpm s \<and> bpm s \<le> BPM_MAX)"
  using assms
proof (induction samples sampleRate windowSamples hopSamples st segments rule: windowLoop.induct)
  case (1 samples sampleRate windowSamples hopSamples st segments)
  show ?case
  proof (cases "0 < hopSamples \<and> st + windowSamples \<le> length samples")
    case False
    then show ?thesis using "1.prems"(3)
      by (subst windowLoop.simps) (simp only: if_False, blast)
  next
    case True
    let ?slice = "take (st + windowSamples - st) (drop st samples)"
    from estimateTempo_returns[of ?slice sampleRate] obtain r where
      r: "estimateTempo ?slice sampleRate = Some r"
         "\<forall>b. r = Some b \<longrightarrow> BPM_MIN \<le> b \<and> b \<le> BPM_MAX" by blast
    show ?thesis
    proof (cases r)
      case None
      then have est: "estimateTempo ?slice sampleRate = Some None" using r(1) by simp
      have "\<exists>r. windowLoop samples sampleRate windowSamples hopSamples (st + hopSamples) segments
                   = Some r \<and>
             (\<forall>s\<in>set r. start s < end' s \<and> BPM_MIN \<le> bpm s \<and> bpm s \<le> BPM_MAX)"
        by (rule "1.IH"(1)[OF True refl refl est refl "1.prems"])
      then show ?thesis using True est
        by (subst windowLoop.simps) (simp add: Let_def)
    next
      case (Some b)
      then have est: "estimateTempo ?slice sampleRate = Some (Some b)" using r(1) by simp
      have b: "BPM_MIN \<le> b" "b \<le> BPM_MAX" using r(2) Some by auto
      then have b0: "b \<noteq> 0" by (auto simp: BPM_MIN_def)
      let ?seg = "\<lparr>start = real st / sampleRate, end' = real (st + windowSamples) / sampleRate,
                    bpm = b\<rparr>"
      have "start ?seg < end' ?seg"
        using "1.prems"(1,2) by (simp add: divide_strict_right_mono)
      then have segs: "\<forall>s\<in>set (segments @ [?seg]).
                start s < end' s \<and> BPM_MIN \<le> bpm s \<and> bpm s \<le> BPM_MAX"
        using "1.prems"(3) b by auto
      have "\<exists>r. windowLoop samples sampleRate windowSamples hopSamples (st + hopSamples)
                   (segments @ [?seg]) = Some r \<and>
             (\<forall>s\<in>set r. start s < end' s \<and> BPM_MIN \<le> bpm s \<and> bpm s \<le> BPM_MAX)"
        by (rule "1.IH"(3)[OF True refl refl est refl b0 "1.prems"(1,2) segs])
      then show ?thesis using True est b0
        by (subst windowLoop.simps) (simp add: Let_def)
    qed
  qed
qed

lemma weighted_mean_bounds:
  fixes a b d1 d2 lo hi :: real
  assumes "0 < d1" "0 < d2" "lo \<le> a" "a \<le> hi" "lo \<le> b" "b \<le> hi"
  shows "lo \<le> (a * d1 + b * d2) / (d1 + d2) \<and> (a * d1 + b * d2) / (d1 + d2) \<le> hi"
proof -
  have p: "0 < d1 + d2" using assms(1,2) by simp
  have "lo * (d1 + d2) = lo * d1 + lo * d2" by (simp add: algebra_simps)
  also have "\<dots> \<le> a * d1 + b * d2"
    using assms by (intro add_mono mult_right_mono) simp_all
  finally have l: "lo * (d1 + d2) \<le> a * d1 + b * d2" .
  have "a * d1 + b * d2 \<le> hi * d1 + hi * d2"
    using assms by (intro add_mono mult_right_mono) simp_all
  also have "\<dots> = hi * (d1 + d2)" by (simp add: algebra_simps)
  finally have h: "a * d1 + b * d2 \<le> hi * (d1 + d2)" .
  show ?thesis using l h p by (simp add: pos_le_divide_eq pos_divide_le_eq)
qed

lemma mergeStep_range:
  assumes "\<forall>s\<in>set merged. start s < end' s \<and> lo \<le> bpm s \<and> bpm s \<le> hi"
    and "start x < end' x \<and> lo \<le> bpm x \<and> bpm x \<le> hi"
  shows "\<forall>s\<in>set (mergeStep merged x). start s < end' s \<and> lo \<le> bpm s \<and> bpm s \<le> hi"
proof (cases "merged = []")
  case True
  then show ?thesis using assms(2) by (simp add: mergeStep_def)
next
  case False
  then have l: "last merged \<in> set merged" by simp
  have bl: "set (butlast merged) \<subseteq> set merged" by (auto dest: in_set_butlastD)
  show ?thesis
  proof (cases "\<bar>bpm x - bpm (last merged)\<bar> \<le> BPM_MERGE_TOLERANCE")
    case far: False
    then show ?thesis using assms False by (auto simp: mergeStep_far)
  next
    case True
    let ?l = "last merged"
    have pl: "start ?l < end' ?l" "lo \<le> bpm ?l" "bpm ?l \<le> hi" using assms(1) l by auto
    have w: "lo \<le> (bpm ?l * (end' ?l - start ?l) + bpm x * (end' x - start x))
                    / ((end' ?l - start ?l) + (end' x - start x)) \<and>
             (bpm ?l * (end' ?l - start ?l) + bpm x * (end' x - start x))
                    / ((end' ?l - start ?l) + (end' x - start x)) \<le> hi"
      by (rule weighted_mean_bounds) (use pl assms(2) in simp_all)
    have "start ?l < max (end' ?l) (end' x)" using pl(1) by simp
    then show ?thesis
      using assms(1) bl w by (auto simp: mergeStep_close[OF False True])
  qed
qed

lemma mergeTempoSegments_range:
  assumes "\<forall>s\<in>set xs. start s < end' s \<and> lo \<le> bpm s \<and> bpm s \<le> hi"
  shows "\<forall>s\<in>set (mergeTempoSegments xs). start s < end' s \<and> lo \<le> bpm s \<and> bpm s \<le> hi"
  using assms
proof (induction xs rule: rev_induct)
  case Nil
  then show ?case by (simp add: mergeTempoSegments_def)
next
  case (snoc x xs)
  have a: "\<forall>s\<in>set (mergeTempoSegments xs). start s < end' s \<and> lo \<le> bpm s \<and> bpm s \<le> hi"
    using snoc by simp
  have b: "start x < end' x \<and> lo \<le> bpm x \<and> bpm x \<le> hi" using snoc.prems by simp
  show ?case unfolding mergeTempoSegments_snoc by (rule mergeStep_range[OF a b])
qed

lemma mergeStep_starts:
  "map start (mergeStep merged x) = map start merged \<or>
   map start (mergeStep merged x) = map start merged @ [start x]"
proof (cases "merged = []")
  case True
  then show ?thesis by (simp add: mergeStep_def)
next
  case False
  then have "map start (butlast merged) @ [start (last merged)] = map start merged"
    by (metis append_butlast_last_id list.simps(8,9) map_append)
  then show ?thesis by (auto simp: mergeStep_def Let_def)
qed

lemma mergeTempoSegments_starts:
  assumes "sorted_wrt (<) (map start xs)"
  shows "sorted_wrt (<) (map start (mergeTempoSegments xs)) \<and>
         set (map start (mergeTempoSegments xs)) \<subseteq> set (map start xs)"
  using assms
proof (induction xs rule: rev_induct)
  case Nil
  then show ?case by (simp add: mergeTempoSegments_def)
next
  case (snoc x xs)
  have s: "sorted_wrt (<) (map start xs)" "\<forall>y\<in>set (map start xs). y < start x"
    using snoc.prems by (auto simp: sorted_wrt_append)
  from snoc.IH[OF s(1)] have ih: "sorted_wrt (<) (map start (mergeTempoSegments xs))"
    "set (map start (mergeTempoSegments xs)) \<subseteq> set (map start xs)" by auto
  have below: "\<forall>y\<in>set (map start (mergeTempoSegments xs)). y < start x"
    using ih(2) s(2) by blast
  from mergeStep_starts[of "mergeTempoSegments xs" x] show ?case
  proof
    assume e: "map start (mergeStep (mergeTempoSegments xs) x) = map start (mergeTempoSegments xs)"
    show ?thesis unfolding mergeTempoSegments_snoc e using ih by auto
  next
    assume e: "map start (mergeStep (mergeTempoSegments xs) x)
               = map start (mergeTempoSegments xs) @ [start x]"
    show ?thesis unfolding mergeTempoSegments_snoc e
      using ih below by (auto simp: sorted_wrt_append)
  qed
qed

lemma windowLoop_sorted:
  assumes "0 < sampleRate"
    and "sorted_wrt (<) (map start segments)"
    and "\<forall>s\<in>set segments. start s < real st / sampleRate"
    and "windowLoop samples sampleRate windowSamples hopSamples st segments = Some r"
  shows "sorted_wrt (<) (map start r)"
  using assms
proof (induction samples sampleRate windowSamples hopSamples st segments rule: windowLoop.induct)
  case (1 samples sampleRate windowSamples hopSamples st segments)
  show ?case
  proof (cases "0 < hopSamples \<and> st + windowSamples \<le> length samples")
    case False
    then have "windowLoop samples sampleRate windowSamples hopSamples st segments = Some segments"
      by (subst windowLoop.simps) (simp only: if_False)
    then show ?thesis using "1.prems" by simp
  next
    case True
    let ?slice = "take (st + windowSamples - st) (drop st samples)"
    have lt: "real st / sampleRate < real (st + hopSamples) / sampleRate"
      using True "1.prems"(1) by (simp add: divide_strict_right_mono)
    have old: "\<forall>s\<in>set segments. start s < real (st + hopSamples) / sampleRate"
      using "1.prems"(3) lt by fastforce
    from estimateTempo_returns[of ?slice sampleRate] obtain e where
      e: "estimateTempo ?slice sampleRate = Some e" by blast
    show ?thesis
    proof (cases e)
      case None
      then have est: "estimateTempo ?slice sampleRate = Some None" using e by simp
      have "windowLoop samples sampleRate windowSamples hopSamples (st + hopSamples) segments = Some r"
        using "1.prems"(4) True est by (subst (asm) windowLoop.simps) (simp add: Let_def)
      from "1.IH"(1)[OF True refl refl est refl "1.prems"(1,2) old this] show ?thesis .
    next
      case (Some b)
      then have est: "estimateTempo ?slice sampleRate = Some (Some b)" using e by simp
      show ?thesis
      proof (cases "b = 0")
        case True
        have "windowLoop samples sampleRate windowSamples hopSamples (st + hopSamples) segments = Some r"
          using "1.prems"(4) \<open>0 < hopSamples \<and> st + windowSamples \<le> length samples\<close> est True
          by (subst (asm) windowLoop.simps) (simp add: Let_def)
        from "1.IH"(2)[OF \<open>0 < hopSamples \<and> st + windowSamples \<le> length samples\<close> refl refl est refl
            True "1.prems"(1,2) old this] show ?thesis .
      next
        case False
        let ?seg = "\<lparr>start = real st / sampleRate, end' = real (st + windowSamples) / sampleRate,
                      bpm = b\<rparr>"
        have w: "windowLoop samples sampleRate windowSamples hopSamples (st + hopSamples)
                   (segments @ [?seg]) = Some r"
          using "1.prems"(4) True est False
          by (subst (asm) windowLoop.simps) (simp add: Let_def)
        have so: "sorted_wrt (<) (map start (segments @ [?seg]))"
          using "1.prems"(2,3) by (auto simp: sorted_wrt_append)
        have new: "\<forall>s\<in>set (segments @ [?seg]). start s < real (st + hopSamples) / sampleRate"
          using old lt by auto
        from "1.IH"(3)[OF True refl refl est refl False "1.prems"(1) so new w] show ?thesis .
      qed
    qed
  qed
qed

lemma floor_window_positive:
  assumes "0 < \<lfloor>sampleRate * BPM_WINDOW_SECONDS\<rfloor>"
  shows "0 < sampleRate"
proof (rule ccontr)
  assume "\<not> 0 < sampleRate"
  then have "sampleRate * BPM_WINDOW_SECONDS \<le> 0"
    by (simp add: BPM_WINDOW_SECONDS_def)
  then have "\<lfloor>sampleRate * BPM_WINDOW_SECONDS\<rfloor> \<le> 0" by (simp add: floor_le_zero)
  then show False using assms by simp
qed

lemma buildTempoSegments_returns:
  "\<exists>r. buildTempoSegments samples sampleRate = Some r \<and>
       (\<forall>s\<in>set r. start s < end' s \<and> BPM_MIN \<le> bpm s \<and> bpm s \<le> BPM_MAX) \<and>
       sorted_wrt (<) (map start r)"
proof (cases "\<lfloor>sampleRate * BPM_WINDOW_SECONDS\<rfloor> \<le> 0 \<or> \<lfloor>sampleRate * BPM_HOP_SECONDS\<rfloor> \<le> 0 \<or>
              int (length samples) < \<lfloor>sampleRate * BPM_WINDOW_SECONDS\<rfloor>")
  case True
  then show ?thesis by (auto simp: buildTempoSegments_def Let_def)
next
  case False
  then have w: "0 < \<lfloor>sampleRate * BPM_WINDOW_SECONDS\<rfloor>" by simp
  then have sr: "0 < sampleRate" by (rule floor_window_positive)
  have wn: "0 < nat \<lfloor>sampleRate * BPM_WINDOW_SECONDS\<rfloor>" using w by simp
  from windowLoop_returns[OF sr wn, of "[]" samples "nat \<lfloor>sampleRate * BPM_HOP_SECONDS\<rfloor>" 0]
  obtain p where p: "windowLoop samples sampleRate (nat \<lfloor>sampleRate * BPM_WINDOW_SECONDS\<rfloor>)
                       (nat \<lfloor>sampleRate * BPM_HOP_SECONDS\<rfloor>) 0 [] = Some p"
    "\<forall>s\<in>set p. start s < end' s \<and> BPM_MIN \<le> bpm s \<and> bpm s \<le> BPM_MAX" by auto
  have sp: "sorted_wrt (<) (map start p)"
    by (rule windowLoop_sorted[OF sr _ _ p(1)]) simp_all
  have eq: "buildTempoSegments samples sampleRate = Some (mergeTempoSegments p)"
    using False p(1) by (simp add: buildTempoSegments_def Let_def)
  show ?thesis
    using eq mergeTempoSegments_range[OF p(2)] mergeTempoSegments_starts[OF sp] by simp
qed

subsection \<open>The beat-tracking strategy before merging\<close>

lemma sum_list_bounds:
  fixes xs :: "real list"
  assumes "\<forall>x\<in>set xs. lo \<le> x \<and> x \<le> hi"
  shows "lo * real (length xs) \<le> sum_list xs \<and> sum_list xs \<le> hi * real (length xs)"
  using assms by (induction xs) (auto simp: algebra_simps)

lemma average_range:
  assumes "average xs = Some a" "\<forall>x\<in>set xs. lo \<le> x \<and> x \<le> hi"
  shows "lo \<le> a \<and> a \<le> hi"
proof -
  have ne: "xs \<noteq> []" using assms(1) by (auto simp: average_def split: if_splits)
  then have p: "0 < real (length xs)" by simp
  have a: "a = sum_list xs / real (length xs)"
    using assms(1) ne by (simp add: average_def foldl_plus_sum_list)
  show ?thesis
    using sum_list_bounds[OF assms(2)] p unfolding a
    by (simp add: pos_le_divide_eq pos_divide_le_eq)
qed

lemma sliceLast_subset: "set (sliceLast n xs) \<subseteq> set xs"
  by (simp add: sliceLast_def set_drop_subset)

lemma beatStep_cases:
  "beatStep beats st i = st \<or>
   (\<exists>smoothed. 
      beats ! (i - 1) < beats ! i \<and>
      worker_BPM_MIN \<le> 60 / (beats ! i - beats ! (i - 1)) \<and>
      60 / (beats ! i - beats ! (i - 1)) \<le> worker_BPM_MAX \<and>
      average (sliceLast MOVING_AVG_WINDOW (history st @ [60 / (beats ! i - beats ! (i - 1))]))
        = Some smoothed \<and>
      beatStep beats st i =
        \<lparr>intervals = intervals st @ [\<lparr>start = beats ! (i - 1), end' = beats ! i, bpm = smoothed\<rparr>],
         history = sliceLast MOVING_AVG_WINDOW (history st @ [60 / (beats ! i - beats ! (i - 1))]),
         lastStable = Some smoothed\<rparr>)"
  by (auto simp: beatStep_def Let_def split: option.splits)

lemma beatStep_range:
  assumes "\<forall>s\<in>set (intervals st). worker_BPM_MIN \<le> bpm s \<and> bpm s \<le> worker_BPM_MAX"
    and "\<forall>h\<in>set (history st). worker_BPM_MIN \<le> h \<and> h \<le> worker_BPM_MAX"
  shows "(\<forall>s\<in>set (intervals (beatStep beats st k)).
            worker_BPM_MIN \<le> bpm s \<and> bpm s \<le> worker_BPM_MAX) \<and>
         (\<forall>h\<in>set (history (beatStep beats st k)). worker_BPM_MIN \<le> h \<and> h \<le> worker_BPM_MAX)"
proof -
  from beatStep_cases[of beats st k] show ?thesis
  proof
    assume "beatStep beats st k = st"
    then show ?thesis using assms by simp
  next
    assume "\<exists>smoothed. 
      beats ! (k - 1) < beats ! k \<and>
      worker_BPM_MIN \<le> 60 / (beats ! k - beats ! (k - 1)) \<and>
      60 / (beats ! k - beats ! (k - 1)) \<le> worker_BPM_MAX \<and>
      average (sliceLast MOVING_AVG_WINDOW (history st @ [60 / (beats ! k - beats ! (k - 1))]))
        = Some smoothed \<and>
      beatStep beats st k =
        \<lparr>intervals = intervals st @ [\<lparr>start = beats ! (k - 1), end' = beats ! k, bpm = smoothed\<rparr>],
         history = sliceLast MOVING_AVG_WINDOW (history st @ [60 / (beats ! k - beats ! (k - 1))]),
         lastStable = Some smoothed\<rparr>"
    then obtain smoothed where
      raw: "worker_BPM_MIN \<le> 60 / (beats ! k - beats ! (k - 1))"
           "60 / (beats ! k - beats ! (k - 1)) \<le> worker_BPM_MAX" and
      av: "average (sliceLast MOVING_AVG_WINDOW (history st @ [60 / (beats ! k - beats ! (k - 1))]))
             = Some smoothed" and
      eq: "beatStep beats st k =
        \<lparr>intervals = intervals st @ [\<lparr>start = beats ! (k - 1), end' = beats ! k, bpm = smoothed\<rparr>],
         history = sliceLast MOVING_AVG_WINDOW (history st @ [60 / (beats ! k - beats ! (k - 1))]),
         lastStable = Some smoothed\<rparr>" by blast
    let ?h = "sliceLast MOVING_AVG_WINDOW (history st @ [60 / (beats ! k - beats ! (k - 1))])"
    have hr: "\<forall>h\<in>set ?h. worker_BPM_MIN \<le> h \<and> h \<le> worker_BPM_MAX"
      using sliceLast_subset[of MOVING_AVG_WINDOW "history st @ [60 / (beats ! k - beats ! (k - 1))]"]
        assms(2) raw by auto
    have sm: "worker_BPM_MIN \<le> smoothed \<and> smoothed \<le> worker_BPM_MAX"
      by (rule average_range[OF av hr])
    show ?thesis unfolding eq using assms(1) sm hr by auto
  qed
qed

lemma foldl_beatStep_range:
  assumes "\<forall>s\<in>set (intervals st). worker_BPM_MIN \<le> bpm s \<and> bpm s \<le> worker_BPM_MAX"
    and "\<forall>h\<in>set (history st). worker_BPM_MIN \<le> h \<and> h \<le> worker_BPM_MAX"
  shows "\<forall>s\<in>set (intervals (foldl (beatStep beats) st ks)).
           worker_BPM_MIN \<le> bpm s \<and> bpm s \<le> worker_BPM_MAX"
  using assms
proof (induction ks arbitrary: st)
  case Nil
  then show ?case by simp
next
  case (Cons k ks)
  from beatStep_range[OF Cons.prems, of beats k] have
    "\<forall>s\<in>set (intervals (beatStep beats st k)). worker_BPM_MIN \<le> bpm s \<and> bpm s \<le> worker_BPM_MAX"
    "\<forall>h\<in>set (history (beatStep beats st k)). worker_BPM_MIN \<le> h \<and> h \<le> worker_BPM_MAX"
    by blast+
  from Cons.IH[OF this] show ?case by simp
qed

lemma beatIntervals_range:
  "\<forall>s\<in>set (beatIntervals beats). worker_BPM_MIN \<le> bpm s \<and> bpm s \<le> worker_BPM_MAX"
  unfolding beatIntervals_def by (rule foldl_beatStep_range) simp_all
subsection \<open>A beat sequence evaluated\<close>

text \<open>
  Every number below is a multiple of a power of two of small size, so the sums, products
  and quotients are the same in binary64 as in the reals.
\<close>

lemma upt_1_6: "[1..<6] = [1, 2, 3, 4, 5::nat]"
  by (simp add: upt_rec)

lemma unordered_intervals:
  "beatIntervals [37 / 4, 43 / 4, 0, 3 / 2, 3, 17 / 4] =
     [\<lparr>start = 37 / 4, end' = 43 / 4, bpm = 40\<rparr>, \<lparr>start = 0, end' = 3 / 2, bpm = 40\<rparr>,
      \<lparr>start = 3 / 2, end' = 3, bpm = 40\<rparr>, \<lparr>start = 3, end' = 17 / 4, bpm = 42\<rparr>]"
  by (simp add: beatIntervals_def upt_1_6 beatStep_def Let_def average_def sliceLast_def
      worker_BPM_MIN_def worker_BPM_MAX_def MOVING_AVG_WINDOW_def GLITCH_RATIO_def)

lemma unordered_tempo_map:
  "buildTempoMap [37 / 4, 43 / 4, 0, 3 / 2, 3, 17 / 4] 12 =
     Some ([\<lparr>start = 37 / 4, end' = 12, bpm = 79 / 2\<rparr>], Some (79 / 2))"
  by (simp add: buildTempoMap_def unordered_intervals tempoMapMergeStep_def Let_def extendLast_def
      SEGMENT_TOLERANCE_def median_def)

lemma unordered_reported:
  "reportedSegments [\<lparr>start = 37 / 4, end' = 12, bpm = 79 / 2\<rparr>] =
     [\<lparr>start = 93 / 10, end' = 12, bpm = 79 / 2\<rparr>]"
  by (simp add: reportedSegments_def Math_round_def)
subsection \<open>The assembled analysis\<close>

lemma assembleAnalysis_segments:
  assumes "assembleAnalysis decoded = Some a"
  shows "\<exists>r. buildTempoSegments decoded SAMPLE_RATE = Some r \<and>
             bpmSegments a = map (\<lambda>segment. \<lparr>start = roundTo (start segment) 1,
                                               end' = roundTo (end' segment) 1,
                                               bpm = roundTo (bpm segment) 1\<rparr>) r"
  using assms by (auto simp: assembleAnalysis_def split: option.splits)

lemma roundTo_tempo_range:
  assumes "BPM_MIN \<le> v" "v \<le> BPM_MAX"
  shows "BPM_MIN \<le> roundTo v 1 \<and> roundTo v 1 \<le> BPM_MAX"
  using roundTo_bounds[of 600 1 v 2000] assms by (simp add: BPM_MIN_def BPM_MAX_def)

lemma assembleAnalysis_range:
  assumes "assembleAnalysis decoded = Some a"
  shows "\<forall>s\<in>set (bpmSegments a). BPM_MIN \<le> bpm s \<and> bpm s \<le> BPM_MAX"
proof -
  from assembleAnalysis_segments[OF assms] obtain r where
    r: "buildTempoSegments decoded SAMPLE_RATE = Some r"
       "bpmSegments a = map (\<lambda>segment. \<lparr>start = roundTo (start segment) 1,
                                          end' = roundTo (end' segment) 1,
                                          bpm = roundTo (bpm segment) 1\<rparr>) r" by blast
  have "\<forall>s\<in>set r. BPM_MIN \<le> bpm s \<and> bpm s \<le> BPM_MAX"
    using buildTempoSegments_returns[of decoded SAMPLE_RATE] r(1) by auto
  then show ?thesis unfolding r(2) using roundTo_tempo_range by auto
qed

lemma window_samples: "\<lfloor>SAMPLE_RATE * BPM_WINDOW_SECONDS\<rfloor> = 661500"
  by (simp add: SAMPLE_RATE_def BPM_WINDOW_SECONDS_def)

lemma hop_samples: "\<lfloor>SAMPLE_RATE * BPM_HOP_SECONDS\<rfloor> = 330750"
  by (simp add: SAMPLE_RATE_def BPM_HOP_SECONDS_def)

lemma buildTempoSegments_at_rate:
  "buildTempoSegments samples SAMPLE_RATE =
     (if length samples < 661500 then Some []
      else map_option mergeTempoSegments (windowLoop samples SAMPLE_RATE 661500 330750 0 []))"
  by (simp add: buildTempoSegments_def window_samples hop_samples)


subsection \<open>The assembled analysis is defined for every buffer\<close>

lemma median_range:
  assumes "median vals = Some m" "\<forall>v\<in>set vals. lo \<le> v \<and> v \<le> hi"
  shows "lo \<le> m \<and> m \<le> hi"
proof -
  have ne: "vals \<noteq> []" using assms(1) by (auto simp: median_def split: if_splits)
  let ?s = "sort vals"
  have len: "0 < length ?s" using ne by simp
  have mid: "length ?s div 2 < length ?s" using len by simp
  have mid1: "length ?s div 2 - 1 < length ?s" by (rule less_imp_diff_less[OF mid])
  have a: "lo \<le> ?s ! (length ?s div 2) \<and> ?s ! (length ?s div 2) \<le> hi"
    using nth_mem[OF mid] assms(2) by simp
  have b: "lo \<le> ?s ! (length ?s div 2 - 1) \<and> ?s ! (length ?s div 2 - 1) \<le> hi"
    using nth_mem[OF mid1] assms(2) by simp
  show ?thesis
  proof (cases "length ?s mod 2 = 0")
    case True
    then have "m = (?s ! (length ?s div 2 - 1) + ?s ! (length ?s div 2)) / 2"
      using assms(1) ne by (simp add: median_def Let_def)
    then show ?thesis using a b by simp
  next
    case False
    then have "m = ?s ! (length ?s div 2)"
      using assms(1) ne by (simp add: median_def Let_def)
    then show ?thesis using a by simp
  qed
qed

lemma pickOverallBpm_returns:
  assumes "\<forall>s\<in>set segments. BPM_MIN \<le> bpm s \<and> bpm s \<le> BPM_MAX"
  shows "\<exists>r. pickOverallBpm segments = Some r \<and>
             (\<forall>b. r = Some b \<longrightarrow> BPM_MIN \<le> b \<and> b \<le> BPM_MAX)"
proof (cases "median (map bpm segments)")
  case None
  then show ?thesis by (simp add: pickOverallBpm_def)
next
  case (Some m)
  have "\<forall>v\<in>set (map bpm segments). BPM_MIN \<le> v \<and> v \<le> BPM_MAX" using assms by simp
  from median_range[OF Some this] have m: "BPM_MIN \<le> m" "m \<le> BPM_MAX" by simp_all
  then have "m \<noteq> 0" by (simp add: BPM_MIN_def)
  then show ?thesis using Some m by (simp add: pickOverallBpm_def normalizeTempo_inside)
qed

lemma assembleAnalysis_returns: "\<exists>a. assembleAnalysis decoded = Some a"
proof -
  from buildTempoSegments_returns[of decoded SAMPLE_RATE] obtain r where
    r: "buildTempoSegments decoded SAMPLE_RATE = Some r"
       "\<forall>s\<in>set r. BPM_MIN \<le> bpm s \<and> bpm s \<le> BPM_MAX" by auto
  from pickOverallBpm_returns[OF r(2)] obtain p where p: "pickOverallBpm r = Some p" by blast
  from estimateTempo_returns[of decoded SAMPLE_RATE] obtain e where
    e: "estimateTempo decoded SAMPLE_RATE = Some e" by blast
  show ?thesis using r(1) p e by (cases p) (simp_all add: assembleAnalysis_def)
qed
subsection \<open>Buffers that are silent but for four clicks\<close>

lemma sum_single_shifted:
  fixes offset a m :: nat
  shows "(\<Sum>i = 0..<m. if offset + i = a then x else 0) =
     (if offset \<le> a \<and> a < offset + m then x else (0::real))"
proof (cases "offset \<le> a \<and> a < offset + m")
  case True
  then have eq: "\<And>i. (offset + i = a) = (i = a - offset)" by auto
  have "(\<Sum>i = 0..<m. if offset + i = a then x else 0) = (\<Sum>i = 0..<m. if i = a - offset then x else 0)"
    by (simp only: eq)
  also have "\<dots> = x" using True by (subst sum.delta) auto
  finally show ?thesis using True by simp
next
  case False
  then have "\<And>i. i \<in> {0..<m} \<Longrightarrow> offset + i \<noteq> a" by auto
  then have "(\<Sum>i = 0..<m. if offset + i = a then x else 0) = (\<Sum>i = 0..<m. (0::real))"
    by (intro sum.cong) auto
  then have "(\<Sum>i = 0..<m. if offset + i = a then x else 0) = 0" by simp
  then show ?thesis using False by (simp only: if_False)
qed

lemma frameEnergy_clicks:
  assumes "offset + frameSize \<le> length samples"
    and "\<And>j. j < length samples \<Longrightarrow>
           samples ! j = (if j = a \<or> j = b then u else if j = c \<or> j = d then v else 0)"
    and "a \<noteq> b" "c \<noteq> d" "c \<noteq> a" "c \<noteq> b" "d \<noteq> a" "d \<noteq> b"
  shows "frameEnergy samples offset =
           (if offset \<le> a \<and> a < offset + frameSize then u * u else 0) +
           (if offset \<le> b \<and> b < offset + frameSize then u * u else 0) +
           (if offset \<le> c \<and> c < offset + frameSize then v * v else 0) +
           (if offset \<le> d \<and> d < offset + frameSize then v * v else 0)"
proof -
  have "frameEnergy samples offset =
          (\<Sum>i = 0..<frameSize. samples ! (offset + i) * samples ! (offset + i))"
    by (rule frameEnergy_sum)
  also have "\<dots> = (\<Sum>i = 0..<frameSize.
       (if offset + i = a then u * u else 0) + (if offset + i = b then u * u else 0) +
       (if offset + i = c then v * v else 0) + (if offset + i = d then v * v else 0))"
  proof (rule sum.cong[OF refl])
    fix i assume "i \<in> {0..<frameSize}"
    then have "offset + i < length samples" using assms(1) by simp
    then show "samples ! (offset + i) * samples ! (offset + i) =
       (if offset + i = a then u * u else 0) + (if offset + i = b then u * u else 0) +
       (if offset + i = c then v * v else 0) + (if offset + i = d then v * v else 0)"
      using assms(3-8) by (simp add: assms(2))
  qed
  also have "\<dots> =
           (if offset \<le> a \<and> a < offset + frameSize then u * u else 0) +
           (if offset \<le> b \<and> b < offset + frameSize then u * u else 0) +
           (if offset \<le> c \<and> c < offset + frameSize then v * v else 0) +
           (if offset \<le> d \<and> d < offset + frameSize then v * v else 0)"
    by (simp only: sum.distrib sum_single_shifted)
  finally show ?thesis .
qed

lemma click_frame_index:
  fixes a k f :: nat
  assumes "512 * k \<le> a" "a < 512 * k + 512"
  shows "(f * hopSize \<le> a \<and> a < f * hopSize + frameSize) = (f = k \<or> f + 1 = k)"
  using assms unfolding hopSize_def frameSize_def by auto

lemma frameEnergies_clicks:
  assumes "frameSize * 2 \<le> length samples"
    and "frameCount \<le> (length samples - frameSize) div hopSize + 1"
    and "\<And>j. j < length samples \<Longrightarrow>
           samples ! j = (if j = a \<or> j = b then u else if j = c \<or> j = d then v else 0)"
    and "512 * ka \<le> a" "a < 512 * ka + 512" "512 * kb \<le> b" "b < 512 * kb + 512"
    and "512 * kc \<le> c" "c < 512 * kc + 512" "512 * kd \<le> d" "d < 512 * kd + 512"
    and "ka < kb" "kb < kc" "kc < kd"
  shows "frameEnergies samples frameCount =
           map (\<lambda>f. (if f = ka \<or> f + 1 = ka then u * u else 0) +
                    (if f = kb \<or> f + 1 = kb then u * u else 0) +
                    (if f = kc \<or> f + 1 = kc then v * v else 0) +
                    (if f = kd \<or> f + 1 = kd then v * v else 0)) [0..<frameCount]"
  unfolding frameEnergies_def
proof (rule map_cong[OF refl])
  fix f assume "f \<in> set [0..<frameCount]"
  then have "f < (length samples - frameSize) div hopSize + 1" using assms(2) by auto
  from frame_in_range[OF assms(1) this] have r: "f * hopSize + frameSize \<le> length samples" .
  have d: "a \<noteq> b" "c \<noteq> d" "c \<noteq> a" "c \<noteq> b" "d \<noteq> a" "d \<noteq> b"
    using assms(4-14) by auto
  show "frameEnergy samples (f * hopSize) =
          (if f = ka \<or> f + 1 = ka then u * u else 0) +
          (if f = kb \<or> f + 1 = kb then u * u else 0) +
          (if f = kc \<or> f + 1 = kc then v * v else 0) +
          (if f = kd \<or> f + 1 = kd then v * v else 0)"
    by (simp only: frameEnergy_clicks[OF r assms(3) d]
      click_frame_index[OF assms(4,5)] click_frame_index[OF assms(6,7)]
      click_frame_index[OF assms(8,9)] click_frame_index[OF assms(10,11)])
qed


lemma upt_from_one: "[1..<F] = map Suc [0..<F - 1]"
  by (cases F) (simp_all add: map_Suc_upt del: upt_Suc)

lemma onsetDiffs_map:
  "onsetDiffs (map E [0..<F]) =
     map (\<lambda>j. if E (Suc j) - E j > 0 then E (Suc j) - E j else 0) [0..<F - 1]"
proof -
  have "onsetDiffs (map E [0..<F]) =
          map (\<lambda>i. let diff = map E [0..<F] ! i - map E [0..<F] ! (i - 1)
                     in if diff > 0 then diff else 0) (map Suc [0..<F - 1])"
    by (simp only: onsetDiffs_def length_map length_upt minus_nat.diff_0 upt_from_one)
  also have "\<dots> = map (\<lambda>j. if E (Suc j) - E j > 0 then E (Suc j) - E j else 0) [0..<F - 1]"
    unfolding map_map by (rule map_cong[OF refl]) (simp add: Let_def)
  finally show ?thesis .
qed

lemma pulse_difference:
  fixes x y :: real
  assumes "0 \<le> x" "0 \<le> y" "2 \<le> ka" "ka + 3 \<le> kb" "kb + 3 \<le> kc" "kc + 3 \<le> kd"
  shows "(if ((if Suc j = ka \<or> Suc j + 1 = ka then x else 0) +
              (if Suc j = kb \<or> Suc j + 1 = kb then x else 0) +
              (if Suc j = kc \<or> Suc j + 1 = kc then y else 0) +
              (if Suc j = kd \<or> Suc j + 1 = kd then y else 0)) -
             ((if j = ka \<or> j + 1 = ka then x else 0) +
              (if j = kb \<or> j + 1 = kb then x else 0) +
              (if j = kc \<or> j + 1 = kc then y else 0) +
              (if j = kd \<or> j + 1 = kd then y else 0)) > 0
          then ((if Suc j = ka \<or> Suc j + 1 = ka then x else 0) +
                (if Suc j = kb \<or> Suc j + 1 = kb then x else 0) +
                (if Suc j = kc \<or> Suc j + 1 = kc then y else 0) +
                (if Suc j = kd \<or> Suc j + 1 = kd then y else 0)) -
               ((if j = ka \<or> j + 1 = ka then x else 0) +
                (if j = kb \<or> j + 1 = kb then x else 0) +
                (if j = kc \<or> j + 1 = kc then y else 0) +
                (if j = kd \<or> j + 1 = kd then y else 0))
          else 0) =
         (if j + 2 = ka then x else 0) + (if j + 2 = kb then x else 0) +
         (if j + 2 = kc then y else 0) + (if j + 2 = kd then y else 0)"
proof -
  consider "j + 2 = ka" | "j + 2 = kb" | "j + 2 = kc" | "j + 2 = kd"
    | "j = ka" | "j = kb" | "j = kc" | "j = kd"
    | "j + 1 = ka" | "j + 1 = kb" | "j + 1 = kc" | "j + 1 = kd"
    | "j + 2 \<noteq> ka \<and> j + 2 \<noteq> kb \<and> j + 2 \<noteq> kc \<and> j + 2 \<noteq> kd \<and>
       j \<noteq> ka \<and> j \<noteq> kb \<and> j \<noteq> kc \<and> j \<noteq> kd \<and>
       j + 1 \<noteq> ka \<and> j + 1 \<noteq> kb \<and> j + 1 \<noteq> kc \<and> j + 1 \<noteq> kd"
    by blast
  then show ?thesis
    using assms by cases simp_all
qed


lemma onsetDiffs_pulses:
  fixes x y :: real
  assumes "0 \<le> x" "0 \<le> y" "2 \<le> ka" "ka + 3 \<le> kb" "kb + 3 \<le> kc" "kc + 3 \<le> kd"
  shows "onsetDiffs (map (\<lambda>f. (if f = ka \<or> f + 1 = ka then x else 0) +
                             (if f = kb \<or> f + 1 = kb then x else 0) +
                             (if f = kc \<or> f + 1 = kc then y else 0) +
                             (if f = kd \<or> f + 1 = kd then y else 0)) [0..<F]) =
         map (\<lambda>j. (if j + 2 = ka then x else 0) + (if j + 2 = kb then x else 0) +
                  (if j + 2 = kc then y else 0) + (if j + 2 = kd then y else 0)) [0..<F - 1]"
  unfolding onsetDiffs_map
  by (rule map_cong[OF refl]) (rule pulse_difference[OF assms])

lemma sum_single_plus:
  fixes k m :: nat
  shows "(\<Sum>j = 0..<m. if j + 2 = k then x else 0) = (if 2 \<le> k \<and> k < 2 + m then x else (0::real))"
  using sum_single_shifted[of 2 k x m] by (simp add: add.commute)

lemma sum_onset_pulses:
  fixes x y :: real
  assumes "2 \<le> ka" "ka < kb" "kb < kc" "kc < kd" "kd < m + 2"
  shows "foldl (+) 0 (map (\<lambda>j. (if j + 2 = ka then x else 0) + (if j + 2 = kb then x else 0) +
                  (if j + 2 = kc then y else 0) + (if j + 2 = kd then y else 0)) [0..<m])
         = 2 * x + 2 * y"
proof -
  have "foldl (+) 0 (map (\<lambda>j. (if j + 2 = ka then x else 0) + (if j + 2 = kb then x else 0) +
                  (if j + 2 = kc then y else 0) + (if j + 2 = kd then y else 0)) [0..<m])
        = (\<Sum>j = 0..<m. (if j + 2 = ka then x else 0) + (if j + 2 = kb then x else 0) +
                  (if j + 2 = kc then y else 0) + (if j + 2 = kd then y else 0))"
    using foldl_plus_sum_list[of "\<lambda>v. v" 0] 
    by (simp add: interv_sum_list_conv_sum_set_nat)
  also have "\<dots> = (if 2 \<le> ka \<and> ka < 2 + m then x else 0) + (if 2 \<le> kb \<and> kb < 2 + m then x else 0) +
                  (if 2 \<le> kc \<and> kc < 2 + m then y else 0) + (if 2 \<le> kd \<and> kd < 2 + m then y else 0)"
    by (simp only: sum.distrib sum_single_plus)
  also have "\<dots> = 2 * x + 2 * y" using assms by simp
  finally show ?thesis .
qed

lemma onsetStrength_pulses:
  fixes x y :: real
  assumes "0 \<le> x" "0 \<le> y" "2 \<le> ka" "ka + 3 \<le> kb" "kb + 3 \<le> kc" "kc + 3 \<le> kd" "kd < F"
  shows "onsetStrength (map (\<lambda>f. (if f = ka \<or> f + 1 = ka then x else 0) +
                             (if f = kb \<or> f + 1 = kb then x else 0) +
                             (if f = kc \<or> f + 1 = kc then y else 0) +
                             (if f = kd \<or> f + 1 = kd then y else 0)) [0..<F]) =
         map (\<lambda>j. (if j + 2 = ka \<or> j + 2 = kb then max 0 (x - (2 * x + 2 * y) / real (F - 1)) else 0) +
                  (if j + 2 = kc \<or> j + 2 = kd then max 0 (y - (2 * x + 2 * y) / real (F - 1)) else 0))
           [0..<F - 1]"
proof -
  let ?D = "\<lambda>j. (if j + 2 = ka then x else 0) + (if j + 2 = kb then x else 0) +
                  (if j + 2 = kc then y else 0) + (if j + 2 = kd then y else (0::real))"
  have F: "0 < F - 1" using assms(3-7) by simp
  have s: "foldl (+) 0 (map ?D [0..<F - 1]) = 2 * x + 2 * y"
    by (rule sum_onset_pulses) (use assms in simp_all)
  have mean: "0 \<le> (2 * x + 2 * y) / real (F - 1)" using assms(1,2) by simp
  have "onsetStrength (map (\<lambda>f. (if f = ka \<or> f + 1 = ka then x else 0) +
                             (if f = kb \<or> f + 1 = kb then x else 0) +
                             (if f = kc \<or> f + 1 = kc then y else 0) +
                             (if f = kd \<or> f + 1 = kd then y else 0)) [0..<F])
        = map (\<lambda>v. max 0 (v - (2 * x + 2 * y) / real (F - 1))) (map ?D [0..<F - 1])"
    unfolding onsetStrength_def onsetDiffs_pulses[OF assms(1-6)] Let_def s
    using F by simp
  also have "\<dots> = map (\<lambda>j. (if j + 2 = ka \<or> j + 2 = kb then max 0 (x - (2 * x + 2 * y) / real (F - 1)) else 0) +
                  (if j + 2 = kc \<or> j + 2 = kd then max 0 (y - (2 * x + 2 * y) / real (F - 1)) else 0))
           [0..<F - 1]"
    unfolding map_map
  proof (rule map_cong[OF refl])
    fix j
    show "((\<lambda>v. max 0 (v - (2 * x + 2 * y) / real (F - 1))) \<circ> ?D) j =
          (if j + 2 = ka \<or> j + 2 = kb then max 0 (x - (2 * x + 2 * y) / real (F - 1)) else 0) +
          (if j + 2 = kc \<or> j + 2 = kd then max 0 (y - (2 * x + 2 * y) / real (F - 1)) else 0)"
      using assms(3-6) mean by auto
  qed
  finally show ?thesis .
qed

lemma autocorrelation_map:
  "autocorrelation (map w [0..<m]) lag = (\<Sum>i = lag..<m. w i * w (i - lag))"
proof -
  have "autocorrelation (map w [0..<m]) lag =
          sum_list (map (\<lambda>i. map w [0..<m] ! i * map w [0..<m] ! (i - lag)) [lag..<m])"
    by (simp add: autocorrelation_def foldl_plus_sum_list)
  also have "\<dots> = sum_list (map (\<lambda>i. w i * w (i - lag)) [lag..<m])"
    by (rule arg_cong[where f = sum_list], rule map_cong[OF refl]) (simp add: less_imp_diff_less)
  also have "\<dots> = (\<Sum>i = lag..<m. w i * w (i - lag))"
    by (simp add: interv_sum_list_conv_sum_set_nat)
  finally show ?thesis .
qed

lemma pulse_product:
  fixes p q :: real and ka kb kc kd la lb lag i :: nat
  assumes "2 \<le> ka" "kb = ka + la" "kd = kc + lb" "kb + 44 \<le> kc"
    and "3 \<le> la" "3 \<le> lb" "1 \<le> lag" "lag \<le> 43" "lag \<le> i"
  shows "((if i + 2 = ka \<or> i + 2 = kb then p else 0) +
          (if i + 2 = kc \<or> i + 2 = kd then q else 0)) *
         ((if i - lag + 2 = ka \<or> i - lag + 2 = kb then p else 0) +
          (if i - lag + 2 = kc \<or> i - lag + 2 = kd then q else 0)) =
         (if i = kb - 2 then (if lag = la then p * p else 0) else 0) +
         (if i = kd - 2 then (if lag = lb then q * q else 0) else 0)"
proof -
  consider "i + 2 = ka" | "i + 2 = kb" | "i + 2 = kc" | "i + 2 = kd"
    | "i + 2 \<noteq> ka \<and> i + 2 \<noteq> kb \<and> i + 2 \<noteq> kc \<and> i + 2 \<noteq> kd"
    by blast
  then show ?thesis
  proof cases
    case 1
    have "i + 2 \<noteq> kc" "i + 2 \<noteq> kd" "i - lag + 2 \<noteq> ka" "i - lag + 2 \<noteq> kb"
      "i - lag + 2 \<noteq> kc" "i - lag + 2 \<noteq> kd" "i \<noteq> kb - 2" "i \<noteq> kd - 2"
      using 1 assms by linarith+
    then show ?thesis by simp
  next
    case 2
    have "i + 2 \<noteq> kc" "i + 2 \<noteq> kd" "(i - lag + 2 = ka) = (lag = la)" "i - lag + 2 \<noteq> kb"
      "i - lag + 2 \<noteq> kc" "i - lag + 2 \<noteq> kd" "i = kb - 2" "i \<noteq> kd - 2"
      using 2 assms by linarith+
    then show ?thesis using 2 by simp
  next
    case 3
    have "i + 2 \<noteq> ka" "i + 2 \<noteq> kb" "i - lag + 2 \<noteq> ka" "i - lag + 2 \<noteq> kb"
      "i - lag + 2 \<noteq> kc" "i - lag + 2 \<noteq> kd" "i \<noteq> kb - 2" "i \<noteq> kd - 2"
      using 3 assms by linarith+
    then show ?thesis by simp
  next
    case 4
    have "i + 2 \<noteq> ka" "i + 2 \<noteq> kb" "i - lag + 2 \<noteq> ka" "i - lag + 2 \<noteq> kb"
      "(i - lag + 2 = kc) = (lag = lb)" "i - lag + 2 \<noteq> kd" "i \<noteq> kb - 2" "i = kd - 2"
      using 4 assms by linarith+
    then show ?thesis using 4 by simp
  next
    case 5
    then have "i \<noteq> kb - 2" "i \<noteq> kd - 2" using assms by linarith+
    then show ?thesis using 5 by simp
  qed
qed

lemma autocorrelation_pulses:
  fixes p q :: real
  assumes "2 \<le> ka" "kb = ka + la" "kd = kc + lb" "kb + 44 \<le> kc"
    and "3 \<le> la" "3 \<le> lb" "1 \<le> lag" "lag \<le> 43" "kd < m + 2"
  shows "autocorrelation
           (map (\<lambda>j. (if j + 2 = ka \<or> j + 2 = kb then p else 0) +
                     (if j + 2 = kc \<or> j + 2 = kd then q else 0)) [0..<m]) lag =
         (if lag = la then p * p else 0) + (if lag = lb then q * q else 0)"
proof -
  let ?w = "\<lambda>j. (if j + 2 = ka \<or> j + 2 = kb then p else 0) +
                     (if j + 2 = kc \<or> j + 2 = kd then q else 0)"
  have "autocorrelation (map ?w [0..<m]) lag = (\<Sum>i = lag..<m. ?w i * ?w (i - lag))"
    by (rule autocorrelation_map)
  also have "\<dots> = (\<Sum>i = lag..<m.
       (if i = kb - 2 then (if lag = la then p * p else 0) else 0) +
       (if i = kd - 2 then (if lag = lb then q * q else 0) else 0))"
  proof (rule sum.cong[OF refl])
    fix i assume "i \<in> {lag..<m}"
    then have "lag \<le> i" by simp
    from pulse_product[OF assms(1-8) this, of p q]
    show "?w i * ?w (i - lag) =
       (if i = kb - 2 then (if lag = la then p * p else 0) else 0) +
       (if i = kd - 2 then (if lag = lb then q * q else 0) else 0)" .
  qed
  also have "\<dots> = (if kb - 2 \<in> {lag..<m} then (if lag = la then p * p else 0) else 0) +
                  (if kd - 2 \<in> {lag..<m} then (if lag = lb then q * q else 0) else 0)"
    by (simp only: sum.distrib sum.delta finite_atLeastLessThan)
  also have "\<dots> = (if lag = la then p * p else 0) + (if lag = lb then q * q else 0)"
    using assms by auto
  finally show ?thesis .
qed

lemma foldl_lagStep_below:
  assumes "snd best < c" "\<forall>l\<in>set xs. autocorrelation onset l < c"
  shows "snd (foldl (lagStep onset) best xs) < c"
  using assms by (induction xs arbitrary: best) (simp_all add: lagStep_def Let_def)

lemma foldl_lagStep_keep:
  assumes "\<forall>l\<in>set ys. autocorrelation onset l \<le> snd best"
  shows "foldl (lagStep onset) best ys = best"
  using assms by (induction ys) (simp_all add: lagStep_def Let_def)

lemma foldl_lagStep_peak:
  assumes "snd best < autocorrelation onset L"
    and "\<forall>l\<in>set xs. autocorrelation onset l < autocorrelation onset L"
    and "\<forall>l\<in>set ys. autocorrelation onset l \<le> autocorrelation onset L"
  shows "foldl (lagStep onset) best (xs @ [L] @ ys) = (L, autocorrelation onset L)"
proof -
  have "snd (foldl (lagStep onset) best xs) < autocorrelation onset L"
    by (rule foldl_lagStep_below[OF assms(1,2)])
  then have "lagStep onset (foldl (lagStep onset) best xs) L = (L, autocorrelation onset L)"
    by (simp add: lagStep_def Let_def)
  then show ?thesis using assms(3) by (simp add: foldl_lagStep_keep)
qed

lemma lag_bounds: "minLag SAMPLE_RATE = 12" "maxLag SAMPLE_RATE = 43"
  by (simp_all add: minLag_def maxLag_def SAMPLE_RATE_def BPM_MIN_def BPM_MAX_def hopSize_def)

lemma searchLag_peak:
  assumes "12 \<le> L" "L \<le> 43" "0 < autocorrelation onset L"
    and "\<forall>l. 12 \<le> l \<and> l < L \<longrightarrow> autocorrelation onset l < autocorrelation onset L"
    and "\<forall>l. L < l \<and> l \<le> 43 \<longrightarrow> autocorrelation onset l \<le> autocorrelation onset L"
  shows "searchLag onset SAMPLE_RATE = L"
proof -
  have e: "L + (44 - L) = 44" using assms(2) by simp
  have "[12..<L + (44 - L)] = [12..<L] @ [L..<L + (44 - L)]"
    by (rule upt_add_eq_append[OF assms(1)])
  then have "[12..<44] = [12..<L] @ [L..<44]" unfolding e .
  moreover have "[L..<44] = L # [Suc L..<44]"
    by (rule upt_conv_Cons) (use assms(2) in simp)
  ultimately have sp: "[12..<44] = [12..<L] @ [L] @ [Suc L..<44]" by simp
  have f: "foldl (lagStep onset) (0, 0) ([12..<L] @ [L] @ [Suc L..<44]) = (L, autocorrelation onset L)"
    by (rule foldl_lagStep_peak) (use assms in auto)
  have "searchLag onset SAMPLE_RATE = fst (foldl (lagStep onset) (0, 0) [12..<44])"
    by (simp add: searchLag_def lag_bounds del: upt_Suc upt_rec_numeral)
  then show ?thesis unfolding sp f by simp
qed

lemma estimateTempo_search:
  assumes "frameSize * 2 \<le> length samples" "2 < (length samples - frameSize) div hopSize + 1"
  shows "estimateTempo samples sampleRate =
     (if searchLag (onsetStrength (frameEnergies samples ((length samples - frameSize) div hopSize + 1)))
           sampleRate = 0 then Some None
      else map_option Some
             (normalizeTempo (60 * sampleRate /
                (real (searchLag (onsetStrength
                     (frameEnergies samples ((length samples - frameSize) div hopSize + 1))) sampleRate)
                 * real hopSize))))"
  unfolding estimateTempo_def Let_def using assms by simp

lemma estimateTempo_clicks:
  fixes u v :: real
  assumes "frameSize * 2 \<le> length samples"
    and "F = (length samples - frameSize) div hopSize + 1"
    and "\<And>j. j < length samples \<Longrightarrow>
           samples ! j = (if j = a \<or> j = b then u else if j = c \<or> j = d then v else 0)"
    and "512 * ka \<le> a" "a < 512 * ka + 512" "512 * kb \<le> b" "b < 512 * kb + 512"
    and "512 * kc \<le> c" "c < 512 * kc + 512" "512 * kd \<le> d" "d < 512 * kd + 512"
    and "2 \<le> ka" "kb = ka + la" "kb + 44 \<le> kc" "kd = kc + lb" "kd < F"
    and "12 \<le> la" "la \<le> 43" "12 \<le> lb" "lb \<le> 43"
    and "P = max 0 (u * u - (2 * (u * u) + 2 * (v * v)) / real (F - 1))"
    and "Q = max 0 (v * v - (2 * (u * u) + 2 * (v * v)) / real (F - 1))"
    and "(L = la \<and> 0 < P \<and> Q = 0) \<or> (L = lb \<and> la < lb \<and> P < Q)"
  shows "estimateTempo samples SAMPLE_RATE =
           map_option Some (normalizeTempo (60 * SAMPLE_RATE / (real L * real hopSize)))"
proof -
  have o: "ka < kb" "kb < kc" "kc < kd" "ka + 3 \<le> kb" "kb + 3 \<le> kc" "kc + 3 \<le> kd"
    using assms(13-20) by simp_all
  have F2: "2 < F" using assms(12-16) o by simp
  have P0: "0 \<le> P" using assms(21) by simp
  let ?E = "\<lambda>f. (if f = ka \<or> f + 1 = ka then u * u else 0) +
                    (if f = kb \<or> f + 1 = kb then u * u else 0) +
                    (if f = kc \<or> f + 1 = kc then v * v else 0) +
                    (if f = kd \<or> f + 1 = kd then v * v else 0)"
  let ?O = "\<lambda>j. (if j + 2 = ka \<or> j + 2 = kb then P else 0) +
                  (if j + 2 = kc \<or> j + 2 = kd then Q else 0)"
  have en: "frameEnergies samples F = map ?E [0..<F]"
    by (rule frameEnergies_clicks[OF assms(1) _ assms(3-11) o(1-3)]) (simp add: assms(2))
  have on: "onsetStrength (frameEnergies samples F) = map ?O [0..<F - 1]"
    unfolding en assms(21,22)
    by (rule onsetStrength_pulses[OF _ _ assms(12) o(4-6) assms(16)]) simp_all
  have ac: "autocorrelation (onsetStrength (frameEnergies samples F)) lag =
              (if lag = la then P * P else 0) + (if lag = lb then Q * Q else 0)"
    if "1 \<le> lag" "lag \<le> 43" for lag
    unfolding on
    by (rule autocorrelation_pulses[OF assms(12,13,15,14) _ _ that])
       (use assms(16-20) in simp_all)
  have s: "searchLag (onsetStrength (frameEnergies samples F)) SAMPLE_RATE = L"
  proof -
    from assms(23) show ?thesis
    proof
      assume h: "L = la \<and> 0 < P \<and> Q = 0"
      show ?thesis
        by (rule searchLag_peak) (use h assms(17-20) in \<open>simp_all add: ac\<close>)
    next
      assume h: "L = lb \<and> la < lb \<and> P < Q"
      then have "P * P < Q * Q" using P0 by (simp add: mult_strict_mono')
      moreover have "0 < Q * Q" using h P0 by simp
      ultimately show ?thesis
        by (intro searchLag_peak) (use h assms(17-20) in \<open>auto simp: ac\<close>)
    qed
  qed
  have L0: "L \<noteq> 0" using assms(17,19,23) by auto
  show ?thesis
    using estimateTempo_search[OF assms(1), of SAMPLE_RATE] F2 L0
    unfolding assms(2)[symmetric] s by simp
qed

subsection \<open>The example buffers evaluated\<close>

lemma length_shortClicks: "length shortClicks = 66150"
  by (simp add: shortClicks_def)

lemma shortClicks_nth:
  "j < length shortClicks \<Longrightarrow>
   shortClicks ! j = (if j = 5376 \<or> j = 11520 then 1 else if j = 35840 \<or> j = 41984 then 0 else 0)"
  by (auto simp: shortClicks_def nth_list_update)

lemma estimateTempo_shortClicks:
  "estimateTempo shortClicks SAMPLE_RATE = Some (Some (55125 / 512))"
proof -
  have e: "estimateTempo shortClicks SAMPLE_RATE =
           map_option Some (normalizeTempo (60 * SAMPLE_RATE / (real 12 * real hopSize)))"
    by (rule estimateTempo_clicks[where a = 5376 and b = 11520 and c = 35840 and d = 41984
          and u = 1 and v = 0 and ka = 10 and kb = 22 and kc = 70 and kd = 82
          and la = 12 and lb = 12 and F = 128 and P = "125 / 127" and Q = 0,
          OF _ _ shortClicks_nth])
       (simp_all add: length_shortClicks frameSize_def hopSize_def)
  have "normalizeTempo (60 * SAMPLE_RATE / (real 12 * real hopSize)) = Some (55125 / 512)"
    using normalizeTempo_halve[of "60 * SAMPLE_RATE / (real 12 * real hopSize)"]
    by (simp add: SAMPLE_RATE_def hopSize_def BPM_MAX_def)
  then show ?thesis by (simp add: e)
qed


lemma length_clickTrack: "length clickTrack = 1653750"
  by (simp add: clickTrack_def)

lemma clickTrack_nth:
  "i < 1653750 \<Longrightarrow>
   clickTrack ! i = (if i = 5376 \<or> i = 27392 \<or> i = 666876 \<or> i = 687868 then 1
                     else if i = 997626 \<or> i = 1019130 then 2 else 0)"
  by (auto simp: clickTrack_def nth_list_update)

lemma window_nth:
  "st + 661500 \<le> 1653750 \<Longrightarrow> j < 661500 \<Longrightarrow>
   take 661500 (drop st clickTrack) ! j = clickTrack ! (st + j)"
  by (simp add: length_clickTrack)

lemma window_length:
  "st + 661500 \<le> 1653750 \<Longrightarrow> length (take 661500 (drop st clickTrack)) = 661500"
  by (simp add: length_clickTrack)

lemma window0_nth:
  assumes "j < length (take 661500 (drop 0 clickTrack))"
  shows "take 661500 (drop 0 clickTrack) ! j =
     (if j = 5376 \<or> j = 27392 then 1 else if j = 51200 \<or> j = 57344 then 0 else 0)"
proof -
  have j: "j < 661500" using assms by simp
  have "take 661500 (drop 0 clickTrack) ! j = clickTrack ! (0 + j)"
    by (rule window_nth[OF _ j]) simp
  also have "\<dots> = (if j = 5376 \<or> j = 27392 then 1 else if j = 51200 \<or> j = 57344 then 0 else 0)"
    using j by (simp add: clickTrack_nth)
  finally show ?thesis .
qed

lemma window1_nth:
  assumes "j < length (take 661500 (drop 330750 clickTrack))"
  shows "take 661500 (drop 330750 clickTrack) ! j =
     (if j = 336126 \<or> j = 357118 then 1 else if j = 409600 \<or> j = 415744 then 0 else 0)"
proof -
  have j: "j < 661500" using assms by simp
  have "take 661500 (drop 330750 clickTrack) ! j = clickTrack ! (330750 + j)"
    by (rule window_nth[OF _ j]) simp
  also have "\<dots> = (if j = 336126 \<or> j = 357118 then 1 else if j = 409600 \<or> j = 415744 then 0 else 0)"
    using j by (simp add: clickTrack_nth)
  finally show ?thesis .
qed

lemma window2_nth:
  assumes "j < length (take 661500 (drop 661500 clickTrack))"
  shows "take 661500 (drop 661500 clickTrack) ! j =
     (if j = 5376 \<or> j = 26368 then 1 else if j = 336126 \<or> j = 357630 then 2 else 0)"
proof -
  have j: "j < 661500" using assms by simp
  have "take 661500 (drop 661500 clickTrack) ! j = clickTrack ! (661500 + j)"
    by (rule window_nth[OF _ j]) simp
  also have "\<dots> = (if j = 5376 \<or> j = 26368 then 1 else if j = 336126 \<or> j = 357630 then 2 else 0)"
    using j by (simp add: clickTrack_nth)
  finally show ?thesis .
qed

lemma window3_nth:
  assumes "j < length (take 661500 (drop 992250 clickTrack))"
  shows "take 661500 (drop 992250 clickTrack) ! j =
     (if j = 5376 \<or> j = 26880 then 2 else if j = 51200 \<or> j = 57344 then 0 else 0)"
proof -
  have j: "j < 661500" using assms by simp
  have "take 661500 (drop 992250 clickTrack) ! j = clickTrack ! (992250 + j)"
    by (rule window_nth[OF _ j]) simp
  also have "\<dots> = (if j = 5376 \<or> j = 26880 then 2 else if j = 51200 \<or> j = 57344 then 0 else 0)"
    using j by (simp add: clickTrack_nth)
  finally show ?thesis .
qed

lemma tempo_of_lag:
  "normalizeTempo (60 * SAMPLE_RATE / (real 43 * real hopSize)) = Some (165375 / 2752)"
  "normalizeTempo (60 * SAMPLE_RATE / (real 41 * real hopSize)) = Some (165375 / 2624)"
  "normalizeTempo (60 * SAMPLE_RATE / (real 42 * real hopSize)) = Some (165375 / 2688)"
  using normalizeTempo_inside[of "60 * SAMPLE_RATE / (real 43 * real hopSize)"]
    normalizeTempo_inside[of "60 * SAMPLE_RATE / (real 41 * real hopSize)"]
    normalizeTempo_inside[of "60 * SAMPLE_RATE / (real 42 * real hopSize)"]
  by (simp_all add: SAMPLE_RATE_def hopSize_def BPM_MIN_def BPM_MAX_def)

lemma window0_tempo:
  "estimateTempo (take 661500 (drop 0 clickTrack)) SAMPLE_RATE = Some (Some (165375 / 2752))"
proof -
  have "estimateTempo (take 661500 (drop 0 clickTrack)) SAMPLE_RATE =
           map_option Some (normalizeTempo (60 * SAMPLE_RATE / (real 43 * real hopSize)))"
    by (rule estimateTempo_clicks[where a = 5376 and b = 27392 and c = 51200 and d = 57344
          and u = 1 and v = 0 and ka = 10 and kb = 53 and kc = 100 and kd = 112
          and la = 43 and lb = 12 and F = 1290 and P = "1287 / 1289" and Q = 0,
          OF _ _ window0_nth])
       (simp_all add: length_clickTrack frameSize_def hopSize_def)
  then show ?thesis by (simp only: tempo_of_lag option.map)
qed

lemma window1_tempo:
  "estimateTempo (take 661500 (drop 330750 clickTrack)) SAMPLE_RATE = Some (Some (165375 / 2624))"
proof -
  have "estimateTempo (take 661500 (drop 330750 clickTrack)) SAMPLE_RATE =
           map_option Some (normalizeTempo (60 * SAMPLE_RATE / (real 41 * real hopSize)))"
    by (rule estimateTempo_clicks[where a = 336126 and b = 357118 and c = 409600 and d = 415744
          and u = 1 and v = 0 and ka = 656 and kb = 697 and kc = 800 and kd = 812
          and la = 41 and lb = 12 and F = 1290 and P = "1287 / 1289" and Q = 0,
          OF _ _ window1_nth])
       (simp_all add: length_clickTrack frameSize_def hopSize_def)
  then show ?thesis by (simp only: tempo_of_lag option.map)
qed

lemma window2_tempo:
  "estimateTempo (take 661500 (drop 661500 clickTrack)) SAMPLE_RATE = Some (Some (165375 / 2688))"
proof -
  have "estimateTempo (take 661500 (drop 661500 clickTrack)) SAMPLE_RATE =
           map_option Some (normalizeTempo (60 * SAMPLE_RATE / (real 42 * real hopSize)))"
    by (rule estimateTempo_clicks[where a = 5376 and b = 26368 and c = 336126 and d = 357630
          and u = 1 and v = 2 and ka = 10 and kb = 51 and kc = 656 and kd = 698
          and la = 41 and lb = 42 and F = 1290 and P = "1279 / 1289" and Q = "5146 / 1289",
          OF _ _ window2_nth])
       (simp_all add: length_clickTrack frameSize_def hopSize_def)
  then show ?thesis by (simp only: tempo_of_lag option.map)
qed

lemma window3_tempo:
  "estimateTempo (take 661500 (drop 992250 clickTrack)) SAMPLE_RATE = Some (Some (165375 / 2688))"
proof -
  have "estimateTempo (take 661500 (drop 992250 clickTrack)) SAMPLE_RATE =
           map_option Some (normalizeTempo (60 * SAMPLE_RATE / (real 42 * real hopSize)))"
    by (rule estimateTempo_clicks[where a = 5376 and b = 26880 and c = 51200 and d = 57344
          and u = 2 and v = 0 and ka = 10 and kb = 52 and kc = 100 and kd = 112
          and la = 42 and lb = 12 and F = 1290 and P = "5148 / 1289" and Q = 0,
          OF _ _ window3_nth])
       (simp_all add: length_clickTrack frameSize_def hopSize_def)
  then show ?thesis by (simp only: tempo_of_lag option.map)
qed

lemma windowLoop_step:
  assumes "0 < hopSamples" "st + windowSamples \<le> length samples"
    and "estimateTempo (take windowSamples (drop st samples)) sampleRate = Some (Some b)" "b \<noteq> 0"
  shows "windowLoop samples sampleRate windowSamples hopSamples st segs =
         windowLoop samples sampleRate windowSamples hopSamples (st + hopSamples)
           (segs @ [\<lparr>start = real st / sampleRate, end' = real (st + windowSamples) / sampleRate,
                      bpm = b\<rparr>])"
  using assms by (subst windowLoop.simps) (simp add: Let_def)

lemma windowLoop_stop:
  assumes "\<not> st + windowSamples \<le> length samples"
  shows "windowLoop samples sampleRate windowSamples hopSamples st segs = Some segs"
  using assms by (subst windowLoop.simps) simp

lemma clickTrack_provisional:
  "windowLoop clickTrack SAMPLE_RATE 661500 330750 0 [] =
     Some [\<lparr>start = 0, end' = 30, bpm = 165375 / 2752\<rparr>,
           \<lparr>start = 15, end' = 45, bpm = 165375 / 2624\<rparr>,
           \<lparr>start = 30, end' = 60, bpm = 7875 / 128\<rparr>,
           \<lparr>start = 45, end' = 75, bpm = 7875 / 128\<rparr>]"
proof -
  have "windowLoop clickTrack SAMPLE_RATE 661500 330750 0 [] =
        windowLoop clickTrack SAMPLE_RATE 661500 330750 (0 + 330750)
          ([] @ [\<lparr>start = real 0 / SAMPLE_RATE, end' = real (0 + 661500) / SAMPLE_RATE,
                    bpm = 165375 / 2752\<rparr>])"
    by (rule windowLoop_step[OF _ _ window0_tempo]) (simp_all add: length_clickTrack)
  also have "\<dots> = windowLoop clickTrack SAMPLE_RATE 661500 330750 330750
          [\<lparr>start = 0, end' = 30, bpm = 165375 / 2752\<rparr>]"
    by (simp add: SAMPLE_RATE_def)
  also have "\<dots> = windowLoop clickTrack SAMPLE_RATE 661500 330750 (330750 + 330750)
          ([\<lparr>start = 0, end' = 30, bpm = 165375 / 2752\<rparr>] @
           [\<lparr>start = real 330750 / SAMPLE_RATE, end' = real (330750 + 661500) / SAMPLE_RATE,
              bpm = 165375 / 2624\<rparr>])"
    by (rule windowLoop_step[OF _ _ window1_tempo]) (simp_all add: length_clickTrack)
  also have "\<dots> = windowLoop clickTrack SAMPLE_RATE 661500 330750 661500
          [\<lparr>start = 0, end' = 30, bpm = 165375 / 2752\<rparr>,
           \<lparr>start = 15, end' = 45, bpm = 165375 / 2624\<rparr>]"
    by (simp add: SAMPLE_RATE_def)
  also have "\<dots> = windowLoop clickTrack SAMPLE_RATE 661500 330750 (661500 + 330750)
          ([\<lparr>start = 0, end' = 30, bpm = 165375 / 2752\<rparr>,
            \<lparr>start = 15, end' = 45, bpm = 165375 / 2624\<rparr>] @
           [\<lparr>start = real 661500 / SAMPLE_RATE, end' = real (661500 + 661500) / SAMPLE_RATE,
              bpm = 165375 / 2688\<rparr>])"
    by (rule windowLoop_step[OF _ _ window2_tempo]) (simp_all add: length_clickTrack)
  also have "\<dots> = windowLoop clickTrack SAMPLE_RATE 661500 330750 992250
          [\<lparr>start = 0, end' = 30, bpm = 165375 / 2752\<rparr>,
           \<lparr>start = 15, end' = 45, bpm = 165375 / 2624\<rparr>,
           \<lparr>start = 30, end' = 60, bpm = 7875 / 128\<rparr>]"
    by (simp add: SAMPLE_RATE_def)
  also have "\<dots> = windowLoop clickTrack SAMPLE_RATE 661500 330750 (992250 + 330750)
          ([\<lparr>start = 0, end' = 30, bpm = 165375 / 2752\<rparr>,
            \<lparr>start = 15, end' = 45, bpm = 165375 / 2624\<rparr>,
            \<lparr>start = 30, end' = 60, bpm = 7875 / 128\<rparr>] @
           [\<lparr>start = real 992250 / SAMPLE_RATE, end' = real (992250 + 661500) / SAMPLE_RATE,
              bpm = 165375 / 2688\<rparr>])"
    by (rule windowLoop_step[OF _ _ window3_tempo]) (simp_all add: length_clickTrack)
  also have "\<dots> = windowLoop clickTrack SAMPLE_RATE 661500 330750 1323000
          [\<lparr>start = 0, end' = 30, bpm = 165375 / 2752\<rparr>,
           \<lparr>start = 15, end' = 45, bpm = 165375 / 2624\<rparr>,
           \<lparr>start = 30, end' = 60, bpm = 7875 / 128\<rparr>,
           \<lparr>start = 45, end' = 75, bpm = 7875 / 128\<rparr>]"
    by (simp add: SAMPLE_RATE_def)
  also have "\<dots> = Some
          [\<lparr>start = 0, end' = 30, bpm = 165375 / 2752\<rparr>,
           \<lparr>start = 15, end' = 45, bpm = 165375 / 2624\<rparr>,
           \<lparr>start = 30, end' = 60, bpm = 7875 / 128\<rparr>,
           \<lparr>start = 45, end' = 75, bpm = 7875 / 128\<rparr>]"
    by (rule windowLoop_stop) (simp add: length_clickTrack)
  finally show ?thesis .
qed

lemma clickTrack_merged:
  "mergeTempoSegments
     [\<lparr>start = 0, end' = 30, bpm = 165375 / 2752\<rparr>,
      \<lparr>start = 15, end' = 45, bpm = 165375 / 2624\<rparr>,
      \<lparr>start = 30, end' = 60, bpm = 7875 / 128\<rparr>,
      \<lparr>start = 45, end' = 75, bpm = 7875 / 128\<rparr>] =
     [\<lparr>start = 0, end' = 30, bpm = 165375 / 2752\<rparr>,
      \<lparr>start = 15, end' = 75, bpm = 650475 / 10496\<rparr>]"
  by (simp add: mergeTempoSegments_def mergeStep_def Let_def BPM_MERGE_TOLERANCE_def)

lemma buildTempoSegments_clickTrack:
  "buildTempoSegments clickTrack SAMPLE_RATE =
     Some [\<lparr>start = 0, end' = 30, bpm = 165375 / 2752\<rparr>,
           \<lparr>start = 15, end' = 75, bpm = 650475 / 10496\<rparr>]"
  by (simp add: buildTempoSegments_at_rate length_clickTrack clickTrack_provisional clickTrack_merged)

lemma assembleAnalysis_shortClicks:
  "assembleAnalysis shortClicks =
     Some \<lparr>overallBpm = Some (1077 / 10), bpmSegments = [],
           key = estimateKey shortClicks SAMPLE_RATE\<rparr>"
  by (simp add: assembleAnalysis_def buildTempoSegments_at_rate length_shortClicks pickOverallBpm_def
      estimateTempo_shortClicks roundTo_def Math_round_def)

subsection \<open>When a new segment begins\<close>

lemma mergeTempoSegments_new_segment:
  assumes "xs \<noteq> []"
  shows "(\<bar>bpm s - bpm (last (mergeTempoSegments xs))\<bar> > BPM_MERGE_TOLERANCE \<longrightarrow>
            mergeTempoSegments (xs @ [s]) = mergeTempoSegments xs @ [s]) \<and>
         (\<bar>bpm s - bpm (last (mergeTempoSegments xs))\<bar> \<le> BPM_MERGE_TOLERANCE \<longrightarrow>
            length (mergeTempoSegments (xs @ [s])) = length (mergeTempoSegments xs))"
proof -
  have ne: "mergeTempoSegments xs \<noteq> []" using assms by (rule mergeTempoSegments_nonempty)
  show ?thesis
    unfolding mergeTempoSegments_snoc
    using ne by (auto simp: mergeStep_far mergeStep_close)
qed


subsection \<open>Merged segments have positive durations\<close>

lemma mergeStep_durations:
  assumes "\<forall>s\<in>set merged. start s < end' s" "start x < end' x"
  shows "\<forall>s\<in>set (mergeStep merged x). start s < end' s"
proof (cases "merged = []")
  case True
  then show ?thesis using assms(2) by (simp add: mergeStep_def)
next
  case False
  then have l: "last merged \<in> set merged" by simp
  have bl: "set (butlast merged) \<subseteq> set merged" by (auto dest: in_set_butlastD)
  have "start (last merged) < max (end' (last merged)) (end' x)" using assms(1) l by fastforce
  then show ?thesis using assms bl False by (auto simp: mergeStep_def Let_def)
qed

lemma mergeTempoSegments_durations:
  assumes "\<forall>s\<in>set xs. start s < end' s"
  shows "\<forall>s\<in>set (mergeTempoSegments xs). start s < end' s"
  using assms
proof (induction xs rule: rev_induct)
  case Nil
  then show ?case by (simp add: mergeTempoSegments_def)
next
  case (snoc x xs)
  have a: "\<forall>s\<in>set (mergeTempoSegments xs). start s < end' s" using snoc by simp
  have b: "start x < end' x" using snoc.prems by simp
  show ?case unfolding mergeTempoSegments_snoc by (rule mergeStep_durations[OF a b])
qed
section \<open>The claims\<close>

text \<open>
  C1, as amended: for every sample buffer the tempo estimator returns a list of segments in
  which every segment has \<open>start < end\<close> and the segments are strictly ordered by
  \<open>start\<close>. The merge begins a new segment exactly when the tempo of the next provisional
  segment differs by more than the tolerance of 2 from the tempo of the last merged segment
  as it is at that moment; otherwise the provisional segment is absorbed and the number of
  segments stays the same.
\<close>

theorem C1_segment_invariant:
  "(\<exists>r. buildTempoSegments samples sampleRate = Some r \<and>
        (\<forall>s\<in>set r. start s < end' s) \<and>
        sorted_wrt (\<lambda>a b. start a < start b) r) \<and>
   (xs \<noteq> [] \<longrightarrow>
      (\<bar>bpm s - bpm (last (mergeTempoSegments xs))\<bar> > 2 \<longrightarrow>
         mergeTempoSegments (xs @ [s]) = mergeTempoSegments xs @ [s]) \<and>
      (\<bar>bpm s - bpm (last (mergeTempoSegments xs))\<bar> \<le> 2 \<longrightarrow>
         length (mergeTempoSegments (xs @ [s])) = length (mergeTempoSegments xs)))"
proof (intro conjI impI)
  from buildTempoSegments_returns[of samples sampleRate] obtain r where
    r: "buildTempoSegments samples sampleRate = Some r"
       "\<forall>s\<in>set r. start s < end' s \<and> BPM_MIN \<le> bpm s \<and> bpm s \<le> BPM_MAX"
       "sorted_wrt (<) (map start r)" by blast
  have "sorted_wrt (\<lambda>a b. start a < start b) r" using r(3) by (simp add: sorted_wrt_map)
  then show "\<exists>r. buildTempoSegments samples sampleRate = Some r \<and>
        (\<forall>s\<in>set r. start s < end' s) \<and> sorted_wrt (\<lambda>a b. start a < start b) r"
    using r(1,2) by blast
next
  assume "xs \<noteq> []" "\<bar>bpm s - bpm (last (mergeTempoSegments xs))\<bar> > 2"
  then show "mergeTempoSegments (xs @ [s]) = mergeTempoSegments xs @ [s]"
    using mergeTempoSegments_new_segment[of xs s] by (simp add: BPM_MERGE_TOLERANCE_def)
next
  assume "xs \<noteq> []" "\<bar>bpm s - bpm (last (mergeTempoSegments xs))\<bar> \<le> 2"
  then show "length (mergeTempoSegments (xs @ [s])) = length (mergeTempoSegments xs)"
    using mergeTempoSegments_new_segment[of xs s] by (simp add: BPM_MERGE_TOLERANCE_def)
qed

theorem C1_segment_invariant_witness:
  "mergeTempoSegments ([\<lparr>start = 0, end' = 30, bpm = 100\<rparr>] @ [\<lparr>start = 15, end' = 45, bpm = 103\<rparr>])
     = mergeTempoSegments [\<lparr>start = 0, end' = 30, bpm = 100\<rparr>] @ [\<lparr>start = 15, end' = 45, bpm = 103\<rparr>] \<and>
   length (mergeTempoSegments ([\<lparr>start = 0, end' = 30, bpm = 100\<rparr>] @ [\<lparr>start = 15, end' = 45, bpm = 101\<rparr>]))
     = length (mergeTempoSegments [\<lparr>start = 0, end' = 30, bpm = 100\<rparr>])"
  using C1_segment_invariant[of "[]" 0 "[\<lparr>start = 0, end' = 30, bpm = 100\<rparr>]"
      "\<lparr>start = 15, end' = 45, bpm = 103\<rparr>"]
    C1_segment_invariant[of "[]" 0 "[\<lparr>start = 0, end' = 30, bpm = 100\<rparr>]"
      "\<lparr>start = 15, end' = 45, bpm = 101\<rparr>"]
  by (simp add: mergeTempoSegments_single)

text \<open>
  The claim as stated fails on the click track: its windows give the tempo values of the
  lags 43, 41, 42 and 42. The second window begins a new segment, the third and the fourth
  are absorbed into it. The two final segments overlap between 15 s and 30 s, since
  adjacent windows overlap by one hop, and their tempo values differ by less than 2, since
  the absorbed windows pull the average back.
\<close>

theorem C1_overlap_counterexample:
  "buildTempoSegments clickTrack SAMPLE_RATE =
     Some [\<lparr>start = 0, end' = 30, bpm = 165375 / 2752\<rparr>,
           \<lparr>start = 15, end' = 75, bpm = 650475 / 10496\<rparr>] \<and>
   (15::real) < 30 \<and> \<bar>650475 / 10496 - 165375 / 2752\<bar> \<le> (2::real)"
  by (simp add: buildTempoSegments_clickTrack)

text \<open>
  C2, as amended: for every decoded buffer shorter than one tempo window (661500 samples)
  the assembled analysis has no tempo segments, and its overall tempo is the estimate of
  \<open>estimateTempo\<close> on the whole buffer, rounded to one decimal; it is null when that
  estimate is null, which is the case for every buffer shorter than two frames (2048
  samples).
\<close>

theorem C2_short_buffer:
  assumes "length decoded < 661500"
  shows "\<exists>e. estimateTempo decoded SAMPLE_RATE = Some e \<and>
             assembleAnalysis decoded =
               Some \<lparr>overallBpm = map_option (\<lambda>v. roundTo v 1) e, bpmSegments = [],
                     key = estimateKey decoded SAMPLE_RATE\<rparr> \<and>
             (length decoded < 2048 \<longrightarrow> e = None)"
proof -
  from estimateTempo_returns[of decoded SAMPLE_RATE] obtain e where
    e: "estimateTempo decoded SAMPLE_RATE = Some e"
       "\<forall>b. e = Some b \<longrightarrow> BPM_MIN \<le> b \<and> b \<le> BPM_MAX" by blast
  have nz: "\<forall>b. e = Some b \<longrightarrow> b \<noteq> 0" using e(2) by (auto simp: BPM_MIN_def)
  have a: "assembleAnalysis decoded =
               Some \<lparr>overallBpm = map_option (\<lambda>v. roundTo v 1) e, bpmSegments = [],
                     key = estimateKey decoded SAMPLE_RATE\<rparr>"
    using assms e(1) nz
    by (cases e) (simp_all add: assembleAnalysis_def buildTempoSegments_at_rate pickOverallBpm_def)
  have "length decoded < 2048 \<longrightarrow> e = None"
    using e(1) by (auto simp: estimateTempo_def frameSize_def)
  then show ?thesis using e(1) a by blast
qed

theorem C2_short_buffer_witness:
  "length shortClicks < 661500 \<and>
   map_option bpmSegments (assembleAnalysis shortClicks) = Some [] \<and>
   map_option overallBpm (assembleAnalysis (replicate 2000 0)) = Some None"
proof -
  have l: "length shortClicks < 661500" by (simp add: length_shortClicks)
  from C2_short_buffer[OF l] have "map_option bpmSegments (assembleAnalysis shortClicks) = Some []"
    by auto
  moreover from C2_short_buffer[of "replicate 2000 0"]
  have "map_option overallBpm (assembleAnalysis (replicate 2000 0)) = Some None"
    by auto
  ultimately show ?thesis using l by simp
qed

text \<open>
  The claim as stated fails on three seconds of silence with two clicks: there is no
  segment, and the fallback to the tempo of the whole buffer reports 107.7.
\<close>

theorem C2_fallback_counterexample:
  "length shortClicks < 661500 \<and>
   map_option bpmSegments (assembleAnalysis shortClicks) = Some [] \<and>
   map_option overallBpm (assembleAnalysis shortClicks) = Some (Some (1077 / 10))"
  by (simp add: length_shortClicks assembleAnalysis_shortClicks)

text \<open>
  C3, as amended: a call of \<open>getSongAnalysis\<close> that is not forced, on an audio file whose
  stat succeeds. The read of the cache is a hit exactly when the cache file parses to a value
  whose properties \<open>audioMtimeMs\<close> and \<open>audioSize\<close> are the two numbers of the stat and whose
  property \<open>analysis\<close> is truthy: that property is then returned as it is, whatever its
  shape, and nothing is decoded, computed or written. An entry that \<open>writeCache\<close> wrote for
  the same stat is such a hit. In every other case (the file cannot be read, is not JSON,
  parses to a value without these properties, carries another modification time or size, or
  has no truthy analysis) the read is a miss that raises no error, and the computation
  proceeds: the call resolves to null when the decoder fails or yields no samples;
  otherwise the analysis of the decoded buffer is assembled, and the call writes it to the
  cache file with the stat and resolves to it, or rejects when that write fails.
\<close>

theorem C3_cache_read:
  assumes "stats w audioPath = Some st"
  shows "(files w (getCachePath cacheDir songId) = Some (Document j) \<and>
          field j ''audioMtimeMs'' = Some (JNumber (mtimeMs st)) \<and>
          field j ''audioSize'' = Some (JNumber (size' st)) \<and>
          field j ''analysis'' = Some a \<and> truthy a \<longrightarrow>
            getSongAnalysis w audioPath cacheDir songId False = Some (Resolved (Some a) w)) \<and>
         (files w (getCachePath cacheDir songId) = Some (Document (cacheJson c)) \<and>
          audioMtimeMs c = mtimeMs st \<and> audioSize c = size' st \<longrightarrow>
            getSongAnalysis w audioPath cacheDir songId False
              = Some (Resolved (Some (analysisJson (analysis c))) w)) \<and>
         (files w (getCachePath cacheDir songId) = None \<or>
          files w (getCachePath cacheDir songId) = Some Unparsable \<or>
          (files w (getCachePath cacheDir songId) = Some (Document j) \<and>
           (field j ''audioMtimeMs'' \<noteq> Some (JNumber (mtimeMs st)) \<or>
            field j ''audioSize'' \<noteq> Some (JNumber (size' st)) \<or>
            (\<forall>x. field j ''analysis'' = Some x \<longrightarrow> \<not> truthy x))) \<longrightarrow>
            (decodeAudioSamples w audioPath = None \<or> decodeAudioSamples w audioPath = Some [] \<longrightarrow>
               getSongAnalysis w audioPath cacheDir songId False = Some (Resolved None w)) \<and>
            (decodeAudioSamples w audioPath = Some decoded \<and> decoded \<noteq> [] \<longrightarrow>
               (\<exists>r. assembleAnalysis decoded = Some r \<and>
                    getSongAnalysis w audioPath cacheDir songId False =
                      (if writable w (getCachePath cacheDir songId)
                       then Some (Resolved (Some (analysisJson r))
                              (w\<lparr>files := (files w)(getCachePath cacheDir songId \<mapsto>
                                   Document (cacheJson \<lparr>audioMtimeMs = mtimeMs st,
                                                        audioSize = size' st, analysis = r,
                                                        createdAt = now w\<rparr>))\<rparr>))
                       else Some (Rejected w)))))"
proof (intro conjI impI)
  assume "files w (getCachePath cacheDir songId) = Some (Document j) \<and>
          field j ''audioMtimeMs'' = Some (JNumber (mtimeMs st)) \<and>
          field j ''audioSize'' = Some (JNumber (size' st)) \<and>
          field j ''analysis'' = Some a \<and> truthy a"
  then have "readCache w (getCachePath cacheDir songId) st = Some a"
    by (simp add: readCache_hit)
  then show "getSongAnalysis w audioPath cacheDir songId False = Some (Resolved (Some a) w)"
    using assms by (simp add: getSongAnalysis_unforced)
next
  assume "files w (getCachePath cacheDir songId) = Some (Document (cacheJson c)) \<and>
          audioMtimeMs c = mtimeMs st \<and> audioSize c = size' st"
  then show "getSongAnalysis w audioPath cacheDir songId False
              = Some (Resolved (Some (analysisJson (analysis c))) w)"
    using assms by (simp add: getSongAnalysis_unforced readCache_cacheJson)
next
  assume miss: "files w (getCachePath cacheDir songId) = None \<or>
          files w (getCachePath cacheDir songId) = Some Unparsable \<or>
          (files w (getCachePath cacheDir songId) = Some (Document j) \<and>
           (field j ''audioMtimeMs'' \<noteq> Some (JNumber (mtimeMs st)) \<or>
            field j ''audioSize'' \<noteq> Some (JNumber (size' st)) \<or>
            (\<forall>x. field j ''analysis'' = Some x \<longrightarrow> \<not> truthy x)))"
  have none: "readCache w (getCachePath cacheDir songId) st = None"
    using miss readCache_unreadable[of w "getCachePath cacheDir songId" st]
      readCache_malformed[of w "getCachePath cacheDir songId" j st] by blast
  {
    assume "decodeAudioSamples w audioPath = None \<or> decodeAudioSamples w audioPath = Some []"
    then show "getSongAnalysis w audioPath cacheDir songId False = Some (Resolved None w)"
      using assms none by (auto simp: getSongAnalysis_def Let_def)
  }
  {
    assume d: "decodeAudioSamples w audioPath = Some decoded \<and> decoded \<noteq> []"
    from assembleAnalysis_returns[of decoded] obtain r where
      r: "assembleAnalysis decoded = Some r" by blast
    have "getSongAnalysis w audioPath cacheDir songId False =
            (if writable w (getCachePath cacheDir songId)
             then Some (Resolved (Some (analysisJson r))
                    (w\<lparr>files := (files w)(getCachePath cacheDir songId \<mapsto>
                         Document (cacheJson \<lparr>audioMtimeMs = mtimeMs st,
                                              audioSize = size' st, analysis = r,
                                              createdAt = now w\<rparr>))\<rparr>))
             else Some (Rejected w))"
      using assms none d r by (simp add: getSongAnalysis_def Let_def writeCache_def)
    then show "\<exists>r. assembleAnalysis decoded = Some r \<and>
                    getSongAnalysis w audioPath cacheDir songId False =
                      (if writable w (getCachePath cacheDir songId)
                       then Some (Resolved (Some (analysisJson r))
                              (w\<lparr>files := (files w)(getCachePath cacheDir songId \<mapsto>
                                   Document (cacheJson \<lparr>audioMtimeMs = mtimeMs st,
                                                        audioSize = size' st, analysis = r,
                                                        createdAt = now w\<rparr>))\<rparr>))
                       else Some (Rejected w))"
      using r by blast
  }
qed

text \<open>
  The theorem at the example worlds. The entry of song \<open>s1\<close> matches the stat of
  \<open>song.mp3\<close> and is returned. It does not match the stat of \<open>changed.mp3\<close>: the eight
  decoded samples of silence are analysed, and the analysis is written over the entry and
  returned. The entry of \<open>s2\<close> is not JSON; where the decoder fails the call gives null.
\<close>

theorem C3_cache_read_witness:
  "stats silentWorld ''song.mp3'' = Some \<lparr>mtimeMs = 1700000000000, size' = 4096\<rparr> \<and>
   stats silentWorld ''changed.mp3'' = Some \<lparr>mtimeMs = 1700000000001, size' = 4096\<rparr> \<and>
   getSongAnalysis silentWorld ''song.mp3'' ''cache'' ''s1'' False
     = Some (Resolved (Some (analysisJson exampleAnalysis)) silentWorld) \<and>
   getSongAnalysis silentWorld ''changed.mp3'' ''cache'' ''s1'' False
     = Some (Resolved (Some (analysisJson \<lparr>overallBpm = None, bpmSegments = [], key = None\<rparr>))
         (silentWorld\<lparr>files := (files silentWorld)(''cache/analysis/s1.json'' \<mapsto>
            Document (cacheJson \<lparr>audioMtimeMs = 1700000000001, audioSize = 4096,
                                 analysis = \<lparr>overallBpm = None, bpmSegments = [], key = None\<rparr>,
                                 createdAt = ''2024-01-02T00:00:00.000Z''\<rparr>))\<rparr>)) \<and>
   getSongAnalysis exampleWorld ''song.mp3'' ''cache'' ''s2'' False
     = Some (Resolved None exampleWorld)"
  using
    C3_cache_read[of silentWorld "''song.mp3''" "\<lparr>mtimeMs = 1700000000000, size' = 4096\<rparr>"
      "''cache''" "''s1''" "cacheJson exampleEntry" "analysisJson exampleAnalysis" exampleEntry]
    C3_cache_read[of silentWorld "''changed.mp3''" "\<lparr>mtimeMs = 1700000000001, size' = 4096\<rparr>"
      "''cache''" "''s1''" "cacheJson exampleEntry" "analysisJson exampleAnalysis" exampleEntry
      "replicate 8 0"]
    C3_cache_read[of exampleWorld "''song.mp3''" "\<lparr>mtimeMs = 1700000000000, size' = 4096\<rparr>"
      "''cache''" "''s2''"]
    assembleAnalysis_zero[of 8]
  by (simp add: silentWorld_def exampleWorld_def exampleEntry_def getCachePath_def cacheJson_def)

text \<open>
  The claim as stated fails for an entry that is malformed in its analysis: the cache file
  of song \<open>s6\<close> carries the stat of \<open>song.mp3\<close> and the string \<open>x\<close> where the analysis
  should be. The read is a hit and the call returns the string; nothing is computed, where
  the forced call analyses the decoded samples.
\<close>

theorem C3_unchecked_analysis_counterexample:
  "files silentWorld ''cache/analysis/s6.json''
     = Some (Document (JObject [(''audioMtimeMs'', JNumber 1700000000000),
                                (''audioSize'', JNumber 4096), (''analysis'', JString ''x'')])) \<and>
   getSongAnalysis silentWorld ''song.mp3'' ''cache'' ''s6'' False
     = Some (Resolved (Some (JString ''x'')) silentWorld) \<and>
   getSongAnalysis silentWorld ''song.mp3'' ''cache'' ''s6'' True
     = Some (Resolved (Some (analysisJson \<lparr>overallBpm = None, bpmSegments = [], key = None\<rparr>))
         (silentWorld\<lparr>files := (files silentWorld)(''cache/analysis/s6.json'' \<mapsto>
            Document (cacheJson \<lparr>audioMtimeMs = 1700000000000, audioSize = 4096,
                                 analysis = \<lparr>overallBpm = None, bpmSegments = [], key = None\<rparr>,
                                 createdAt = ''2024-01-02T00:00:00.000Z''\<rparr>))\<rparr>))"
  using assembleAnalysis_zero[of 8]
  by (simp add: getSongAnalysis_def Let_def readCache_def truthy_def writeCache_def
      silentWorld_def exampleWorld_def getCachePath_def)
text \<open>
  C4: when the stat of the audio file fails, \<open>getSongAnalysis\<close> returns null at once, and
  the files are what they were before the call, whether the call is forced or not.
\<close>

theorem C4_stat_failure:
  "stats w audioPath = None \<Longrightarrow>
   getSongAnalysis w audioPath cacheDir songId force = Some (Resolved None w)"
  by (simp add: getSongAnalysis_def)

theorem C4_stat_failure_witness:
  "stats exampleWorld ''missing.mp3'' = None \<and>
   getSongAnalysis exampleWorld ''missing.mp3'' ''cache'' ''s1'' True
     = Some (Resolved None exampleWorld)"
  using C4_stat_failure[of exampleWorld "''missing.mp3''" "''cache''" "''s1''" True]
  by (simp add: exampleWorld_def)

text \<open>
  C5: for every positive tempo value, octave folding returns, and the value it returns lies
  in the range from 60 to 200. A tempo of 50 is folded to 100.
\<close>

theorem C5_octave_folding:
  "(0 < b \<longrightarrow> (\<exists>r. normalizeTempo b = Some r \<and> 60 \<le> r \<and> r \<le> 200)) \<and>
   normalizeTempo 50 = Some 100"
proof
  show "0 < b \<longrightarrow> (\<exists>r. normalizeTempo b = Some r \<and> 60 \<le> r \<and> r \<le> 200)"
    using normalizeTempo_range[of b] by (simp add: BPM_MIN_def BPM_MAX_def)
  show "normalizeTempo 50 = Some 100"
    using normalizeTempo_double[of 50] by (simp add: BPM_MIN_def BPM_MAX_def)
qed

theorem C5_octave_folding_witness:
  "(0::real) < 25 \<and> (\<exists>r. normalizeTempo 25 = Some r \<and> 60 \<le> r \<and> r \<le> 200)"
  using C5_octave_folding[of 25] by simp

text \<open>
  C6, as amended: the merge is a reduction from left to right that compares each provisional
  segment with the running last merged segment, not with the provisional segment before
  it. For provisional segments of positive duration: when the tempo of the next segment
  differs by at most 2 from the tempo of the last merged segment, the step replaces the
  last merged segment by one that begins where it began, ends at the later of the two ends,
  and has the average of the two tempos weighted by the two durations, which sum to a
  positive number; when it differs by more than 2, the next segment is appended unchanged.
  In particular two provisional segments within 2 of each other, the first beginning first,
  merge into one segment that spans both, with the duration-weighted average of the two.
\<close>

theorem C6_merge_step:
  "(start a < end' a \<and> start b < end' b \<and> start a \<le> start b \<and> \<bar>bpm b - bpm a\<bar> \<le> 2 \<longrightarrow>
      (\<exists>m. mergeTempoSegments [a, b] = [m] \<and>
           start m = min (start a) (start b) \<and> end' m = max (end' a) (end' b) \<and>
           bpm m = (bpm a * (end' a - start a) + bpm b * (end' b - start b))
                   / ((end' a - start a) + (end' b - start b)))) \<and>
   (xs \<noteq> [] \<and> (\<forall>x\<in>set xs. start x < end' x) \<and> start s < end' s \<longrightarrow>
      mergeTempoSegments xs \<noteq> [] \<and>
      0 < (end' (last (mergeTempoSegments xs)) - start (last (mergeTempoSegments xs)))
          + (end' s - start s) \<and>
      (\<bar>bpm s - bpm (last (mergeTempoSegments xs))\<bar> \<le> 2 \<longrightarrow>
         mergeTempoSegments (xs @ [s]) =
           butlast (mergeTempoSegments xs) @
             [(last (mergeTempoSegments xs))
                \<lparr>bpm := (bpm (last (mergeTempoSegments xs))
                           * (end' (last (mergeTempoSegments xs)) - start (last (mergeTempoSegments xs)))
                         + bpm s * (end' s - start s))
                        / ((end' (last (mergeTempoSegments xs)) - start (last (mergeTempoSegments xs)))
                           + (end' s - start s)),
                 end' := max (end' (last (mergeTempoSegments xs))) (end' s)\<rparr>]) \<and>
      (\<bar>bpm s - bpm (last (mergeTempoSegments xs))\<bar> > 2 \<longrightarrow>
         mergeTempoSegments (xs @ [s]) = mergeTempoSegments xs @ [s]))"
proof (intro conjI impI)
  assume h: "start a < end' a \<and> start b < end' b \<and> start a \<le> start b \<and> \<bar>bpm b - bpm a\<bar> \<le> 2"
  have "mergeTempoSegments [a, b] = mergeStep [a] b"
    using mergeTempoSegments_snoc[of "[a]" b] by (simp add: mergeTempoSegments_single)
  also have "\<dots> = [a\<lparr>bpm := (bpm a * (end' a - start a) + bpm b * (end' b - start b))
                              / ((end' a - start a) + (end' b - start b)),
                      end' := max (end' a) (end' b)\<rparr>]"
    using h mergeStep_close[of "[a]" b] by (simp add: BPM_MERGE_TOLERANCE_def)
  finally show "\<exists>m. mergeTempoSegments [a, b] = [m] \<and>
           start m = min (start a) (start b) \<and> end' m = max (end' a) (end' b) \<and>
           bpm m = (bpm a * (end' a - start a) + bpm b * (end' b - start b))
                   / ((end' a - start a) + (end' b - start b))"
    using h by simp
next
  assume h: "xs \<noteq> [] \<and> (\<forall>x\<in>set xs. start x < end' x) \<and> start s < end' s"
  then show ne: "mergeTempoSegments xs \<noteq> []" by (simp add: mergeTempoSegments_nonempty)
  have "\<forall>x\<in>set (mergeTempoSegments xs). start x < end' x"
    using h mergeTempoSegments_durations[of xs] by blast
  then have "start (last (mergeTempoSegments xs)) < end' (last (mergeTempoSegments xs))"
    using ne last_in_set by blast
  then show "0 < (end' (last (mergeTempoSegments xs)) - start (last (mergeTempoSegments xs)))
          + (end' s - start s)"
    using h by simp
  {
    assume "\<bar>bpm s - bpm (last (mergeTempoSegments xs))\<bar> \<le> 2"
    then show "mergeTempoSegments (xs @ [s]) =
           butlast (mergeTempoSegments xs) @
             [(last (mergeTempoSegments xs))
                \<lparr>bpm := (bpm (last (mergeTempoSegments xs))
                           * (end' (last (mergeTempoSegments xs)) - start (last (mergeTempoSegments xs)))
                         + bpm s * (end' s - start s))
                        / ((end' (last (mergeTempoSegments xs)) - start (last (mergeTempoSegments xs)))
                           + (end' s - start s)),
                 end' := max (end' (last (mergeTempoSegments xs))) (end' s)\<rparr>]"
      using ne mergeStep_close[of "mergeTempoSegments xs" s]
      by (simp add: mergeTempoSegments_snoc BPM_MERGE_TOLERANCE_def)
  }
  {
    assume "\<bar>bpm s - bpm (last (mergeTempoSegments xs))\<bar> > 2"
    then show "mergeTempoSegments (xs @ [s]) = mergeTempoSegments xs @ [s]"
      using ne mergeStep_far[of "mergeTempoSegments xs" s]
      by (simp add: mergeTempoSegments_snoc BPM_MERGE_TOLERANCE_def)
  }
qed

text \<open>
  The theorem at the two windows of the specification, with tempos 119.4 and 120.6, and at
  a third window with tempo 123 that is too far from the merged tempo 120.
\<close>

theorem C6_merge_step_witness:
  "mergeTempoSegments [\<lparr>start = 0, end' = 30, bpm = 119.4\<rparr>, \<lparr>start = 15, end' = 45, bpm = 120.6\<rparr>]
     = [\<lparr>start = 0, end' = 45, bpm = 120\<rparr>] \<and>
   mergeTempoSegments [\<lparr>start = 0, end' = 30, bpm = 119.4\<rparr>, \<lparr>start = 15, end' = 45, bpm = 120.6\<rparr>,
                       \<lparr>start = 30, end' = 60, bpm = 123\<rparr>]
     = [\<lparr>start = 0, end' = 45, bpm = 120\<rparr>, \<lparr>start = 30, end' = 60, bpm = 123\<rparr>]"
  using C6_merge_step[of "\<lparr>start = 0, end' = 30, bpm = 119.4\<rparr>"
      "\<lparr>start = 15, end' = 45, bpm = 120.6\<rparr>" "[\<lparr>start = 0, end' = 30, bpm = 119.4\<rparr>]"
      "\<lparr>start = 15, end' = 45, bpm = 120.6\<rparr>"]
    C6_merge_step[of "\<lparr>start = 0, end' = 30, bpm = 119.4\<rparr>"
      "\<lparr>start = 15, end' = 45, bpm = 120.6\<rparr>"
      "[\<lparr>start = 0, end' = 30, bpm = 119.4\<rparr>, \<lparr>start = 15, end' = 45, bpm = 120.6\<rparr>]"
      "\<lparr>start = 30, end' = 60, bpm = 123\<rparr>"]
  by (simp add: mergeTempoSegments_single)

text \<open>
  The claim as stated, for every pair of adjacent provisional segments, fails in a list of
  three: the second and third windows have tempos 102 and 103.5, which differ by 1.5, and
  they are not combined, because the third is compared with the merged tempo 101 of the
  first two.
\<close>

theorem C6_adjacent_pair_counterexample:
  "mergeTempoSegments [\<lparr>start = 0, end' = 30, bpm = 100\<rparr>, \<lparr>start = 15, end' = 45, bpm = 102\<rparr>,
                       \<lparr>start = 30, end' = 60, bpm = 207 / 2\<rparr>]
     = [\<lparr>start = 0, end' = 45, bpm = 101\<rparr>, \<lparr>start = 30, end' = 60, bpm = 207 / 2\<rparr>] \<and>
   \<bar>207 / 2 - (102::real)\<bar> \<le> 2"
  by (simp add: mergeTempoSegments_def mergeStep_def Let_def BPM_MERGE_TOLERANCE_def)
text \<open>
  C7: whenever the key estimator yields an estimate, its confidence is the value the
  specification states: with the scores of the 24 major and minor templates against the
  normalised chroma vector, \<open>best\<close> the highest score and \<open>runnerUp\<close> the second
  highest over all 24, the confidence is \<open>(best - runnerUp) / best\<close> clamped to the
  unit interval when \<open>best > 0\<close> and \<open>0\<close> otherwise, rounded to three decimals
  (\<open>spec_confidence\<close>). The confidence therefore lies between 0 and 1.
\<close>

theorem C7_key_confidence:
  assumes "estimateKey samples sampleRate = Some k"
  shows "(\<exists>chromaVector. chromaVectorOf samples sampleRate = Some chromaVector \<and>
            confidence k = spec_confidence (templateScores chromaVector)) \<and>
         0 \<le> confidence k \<and> confidence k \<le> 1"
proof -
  from assms obtain cv where cv: "chromaVectorOf samples sampleRate = Some cv"
    and k: "k = keyFromScores (scoreTemplates cv)"
    by (auto simp: estimateKey_def split: option.splits)
  have c: "confidence k = spec_confidence (templateScores cv)"
    by (simp add: k confidence_keyFromScores)
  show ?thesis
    using cv c spec_confidence_range[of "templateScores cv"] by simp
qed

theorem C7_key_confidence_witness:
  "\<exists>k. estimateKey clickFrame SAMPLE_RATE = Some k \<and> 0 \<le> confidence k \<and> confidence k \<le> 1"
proof -
  from estimateKey_clickFrame obtain k where k: "estimateKey clickFrame SAMPLE_RATE = Some k"
    by blast
  from C7_key_confidence[OF k] k show ?thesis by blast
qed

text \<open>
  C8: for a buffer of zeros of any length, the analysis that is assembled has a null tempo,
  no tempo segments and a null key; every step returns: the segments are empty, the tempo of
  the whole buffer is null and the key is null. For such a buffer that is not empty, a forced
  call of \<open>getSongAnalysis\<close> resolves to that analysis.
\<close>

theorem C8_silence:
  "assembleAnalysis (replicate n 0) = Some \<lparr>overallBpm = None, bpmSegments = [], key = None\<rparr> \<and>
   buildTempoSegments (replicate n 0) SAMPLE_RATE = Some [] \<and>
   estimateTempo (replicate n 0) SAMPLE_RATE = Some None \<and>
   estimateKey (replicate n 0) SAMPLE_RATE = None \<and>
   (0 < n \<and> stats w audioPath = Some st \<and>
    decodeAudioSamples w audioPath = Some (replicate n 0) \<and>
    writable w (getCachePath cacheDir songId) \<longrightarrow>
      (\<exists>w'. getSongAnalysis w audioPath cacheDir songId True =
             Some (Resolved (Some (analysisJson \<lparr>overallBpm = None, bpmSegments = [], key = None\<rparr>))
                     w')))"
proof (intro conjI impI)
  show "assembleAnalysis (replicate n 0) = Some \<lparr>overallBpm = None, bpmSegments = [], key = None\<rparr>"
    by (rule assembleAnalysis_zero)
  show "buildTempoSegments (replicate n 0) SAMPLE_RATE = Some []"
    by (rule buildTempoSegments_zero)
  show "estimateTempo (replicate n 0) SAMPLE_RATE = Some None"
    by (rule estimateTempo_zero)
  show "estimateKey (replicate n 0) SAMPLE_RATE = None"
    by (rule estimateKey_zero)
next
  assume h: "0 < n \<and> stats w audioPath = Some st \<and>
    decodeAudioSamples w audioPath = Some (replicate n 0) \<and>
    writable w (getCachePath cacheDir songId)"
  then show "\<exists>w'. getSongAnalysis w audioPath cacheDir songId True =
             Some (Resolved (Some (analysisJson \<lparr>overallBpm = None, bpmSegments = [], key = None\<rparr>))
                     w')"
    by (simp add: getSongAnalysis_def Let_def assembleAnalysis_zero writeCache_def)
qed

theorem C8_silence_witness:
  "\<exists>w'. getSongAnalysis silentWorld ''song.mp3'' ''cache'' ''s5'' True =
          Some (Resolved (Some (analysisJson \<lparr>overallBpm = None, bpmSegments = [], key = None\<rparr>))
                  w')"
  using C8_silence[of 8 silentWorld "''song.mp3''" "\<lparr>mtimeMs = 1700000000000, size' = 4096\<rparr>"
      "''cache''" "''s5''"]
  by (simp add: silentWorld_def exampleWorld_def)

text \<open>
  C10, as amended: for the onset-autocorrelation strategy the tempo of every segment lies
  between 60 and 200 for every sample buffer, before merging, after merging and as
  reported: the loop over the windows returns, and its segments, the merged segments and
  the rounded segments of the assembled analysis, which exists, are in range. For the
  beat-tracking strategy the tempo of every interval lies between 40 and 208 before
  merging, for every sequence of beats; nothing is said of its segments after merging.
\<close>

theorem C10_tempo_range:
  "(\<exists>p. windowLoop samples SAMPLE_RATE 661500 330750 0 [] = Some p \<and>
         (\<forall>s\<in>set p. 60 \<le> bpm s \<and> bpm s \<le> 200) \<and>
         (\<forall>s\<in>set (mergeTempoSegments p). 60 \<le> bpm s \<and> bpm s \<le> 200) \<and>
         buildTempoSegments samples SAMPLE_RATE =
           Some (if length samples < 661500 then [] else mergeTempoSegments p)) \<and>
   (\<exists>a. assembleAnalysis samples = Some a \<and>
         (\<forall>s\<in>set (bpmSegments a). 60 \<le> bpm s \<and> bpm s \<le> 200)) \<and>
   (\<forall>s\<in>set (beatIntervals beats). 40 \<le> bpm s \<and> bpm s \<le> 208)"
proof (intro conjI)
  have sr: "0 < SAMPLE_RATE" by (simp add: SAMPLE_RATE_def)
  from windowLoop_returns[OF sr, of 661500 "[]" samples 330750 0] obtain p where
    p: "windowLoop samples SAMPLE_RATE 661500 330750 0 [] = Some p"
       "\<forall>s\<in>set p. start s < end' s \<and> BPM_MIN \<le> bpm s \<and> bpm s \<le> BPM_MAX" by auto
  have m: "\<forall>s\<in>set (mergeTempoSegments p). start s < end' s \<and> BPM_MIN \<le> bpm s \<and> bpm s \<le> BPM_MAX"
    by (rule mergeTempoSegments_range[OF p(2)])
  have b: "buildTempoSegments samples SAMPLE_RATE =
           Some (if length samples < 661500 then [] else mergeTempoSegments p)"
    by (simp add: buildTempoSegments_at_rate p(1))
  show "\<exists>p. windowLoop samples SAMPLE_RATE 661500 330750 0 [] = Some p \<and>
         (\<forall>s\<in>set p. 60 \<le> bpm s \<and> bpm s \<le> 200) \<and>
         (\<forall>s\<in>set (mergeTempoSegments p). 60 \<le> bpm s \<and> bpm s \<le> 200) \<and>
         buildTempoSegments samples SAMPLE_RATE =
           Some (if length samples < 661500 then [] else mergeTempoSegments p)"
    using p m b unfolding BPM_MIN_def BPM_MAX_def by blast
next
  from assembleAnalysis_returns[of samples] obtain a where
    a: "assembleAnalysis samples = Some a" by blast
  from assembleAnalysis_range[OF a]
  have "\<forall>s\<in>set (bpmSegments a). 60 \<le> bpm s \<and> bpm s \<le> 200"
    by (simp add: BPM_MIN_def BPM_MAX_def)
  then show "\<exists>a. assembleAnalysis samples = Some a \<and>
         (\<forall>s\<in>set (bpmSegments a). 60 \<le> bpm s \<and> bpm s \<le> 200)"
    using a by blast
next
  from beatIntervals_range[of beats]
  show "\<forall>s\<in>set (beatIntervals beats). 40 \<le> bpm s \<and> bpm s \<le> 208"
    by (simp add: worker_BPM_MIN_def worker_BPM_MAX_def)
qed

text \<open>
  The theorem at the click track, whose four windows give two merged segments, and at the
  beats of the evaluation above, whose four intervals have tempos 40, 40, 40 and 42.
\<close>

theorem C10_tempo_range_witness:
  "windowLoop clickTrack SAMPLE_RATE 661500 330750 0 [] =
     Some [\<lparr>start = 0, end' = 30, bpm = 165375 / 2752\<rparr>,
           \<lparr>start = 15, end' = 45, bpm = 165375 / 2624\<rparr>,
           \<lparr>start = 30, end' = 60, bpm = 7875 / 128\<rparr>,
           \<lparr>start = 45, end' = 75, bpm = 7875 / 128\<rparr>] \<and>
   buildTempoSegments clickTrack SAMPLE_RATE =
     Some [\<lparr>start = 0, end' = 30, bpm = 165375 / 2752\<rparr>,
           \<lparr>start = 15, end' = 75, bpm = 650475 / 10496\<rparr>] \<and>
   (60::real) \<le> 165375 / 2752 \<and> (165375 / 2624 :: real) \<le> 200 \<and>
   (60::real) \<le> 650475 / 10496 \<and> (650475 / 10496 :: real) \<le> 200 \<and>
   beatIntervals [37 / 4, 43 / 4, 0, 3 / 2, 3, 17 / 4] =
     [\<lparr>start = 37 / 4, end' = 43 / 4, bpm = 40\<rparr>, \<lparr>start = 0, end' = 3 / 2, bpm = 40\<rparr>,
      \<lparr>start = 3 / 2, end' = 3, bpm = 40\<rparr>, \<lparr>start = 3, end' = 17 / 4, bpm = 42\<rparr>] \<and>
   (40::real) \<le> 42 \<and> (42::real) \<le> 208"
  using C10_tempo_range[of clickTrack "[37 / 4, 43 / 4, 0, 3 / 2, 3, 17 / 4]"]
  by (simp add: clickTrack_provisional clickTrack_merged length_clickTrack unordered_intervals)

text \<open>
  The claim as stated fails for the beat-tracking strategy after merging. On these beats,
  which step back in time after the second, the merge step sets the end of the merged
  segment to the end of the next interval, its duration becomes negative, and the weighted
  average with the last interval, of tempo 42, is 39.5: the one segment of the tempo map,
  and the overall tempo, are below 40.
\<close>

theorem C10_unordered_beats_counterexample:
  "buildTempoMap [37 / 4, 43 / 4, 0, 3 / 2, 3, 17 / 4] 12 =
     Some ([\<lparr>start = 37 / 4, end' = 12, bpm = 79 / 2\<rparr>], Some (79 / 2)) \<and>
   reportedSegments [\<lparr>start = 37 / 4, end' = 12, bpm = 79 / 2\<rparr>] =
     [\<lparr>start = 93 / 10, end' = 12, bpm = 79 / 2\<rparr>] \<and>
   (79 / 2 :: real) < 40"
  by (simp add: unordered_tempo_map unordered_reported)

end
